theory Spec2Isabelle
  imports Complex_Main "HOL-Library.Char_ord" "HOL-Library.List_Lexorder"
begin

section \<open>csv2pdf-cli: the CSV validation and template checks of \<open>src/main.py\<close>\<close>

text \<open>
  The development embeds \<open>detect_delimiter\<close>, \<open>parse_price\<close>, \<open>parse_qty\<close>,
  \<open>read_csv_rows\<close> and \<open>ensure_placeholders\<close> of \<open>src/main.py\<close>, together with
  the parts of the Python standard library they call (\<open>str\<close> methods, \<open>int\<close>,
  \<open>decimal.Decimal\<close> under the default context, \<open>csv.reader\<close>, \<open>csv.DictReader\<close> and the
  regular expression of the placeholder check).

  A Python \<open>str\<close> is a sequence of code points. The model covers the strings whose code
  points lie below 256: a \<^typ>\<open>char\<close> \<open>c\<close> stands for the code point \<open>of_char c\<close>, so
  \<open>CHR 0xB2\<close> is SUPERSCRIPT TWO and \<open>CHR 0xA0\<close> is NO-BREAK SPACE. Python integers are
  \<^typ>\<open>int\<close>; the interpreter's configurable limit on the length of a decimal string
  passed to \<open>int\<close> is not modelled.
\<close>

subsection \<open>Errors\<close>

text \<open>
  \<open>CliError\<close> is the one exception class of the program; its message tells the failures
  apart. The constructors of \<open>cli_error\<close> are the messages of the source, in the order of
  the source, each with the text it interpolates. The spec's names for them:
  \<open>DelimiterError\<close> is \<open>DelimiterUndetermined\<close>; \<open>FormatError\<close> is any of the four price and
  the two quantity messages; \<open>NotFoundError\<close> is \<open>CsvNotFound\<close> or \<open>TemplateNotFound\<close>;
  \<open>EmptyFileError\<close> is \<open>CsvEmpty\<close>; \<open>MissingColumnsError\<close>, \<open>EmptyProductError\<close>,
  \<open>NoDataError\<close> and \<open>MissingPlaceholderError\<close> are \<open>MissingColumns\<close>, \<open>EmptyProduct\<close>,
  \<open>NoData\<close> and \<open>MissingPlaceholder\<close>.
  The other constructors of \<open>error\<close> are the library exceptions that can leave the modelled
  functions: \<open>decimal.InvalidOperation\<close>, \<open>decimal.Overflow\<close>, \<open>ValueError\<close> and
  \<open>csv.Error\<close>.
\<close>

datatype cli_error =
    DelimiterUndetermined
  | PriceMissing
  | PriceCommaSeparator
  | PriceInvalid string
  | PriceNegative string
  | QtyMissing
  | QtyNotInteger string
  | CsvNotFound
  | CsvEmpty
  | HeaderMissing
  | MissingColumns string
  | EmptyProduct
  | NoData
  | MissingPlaceholder string
  | TemplateNotFound

datatype error = CliError cli_error | InvalidOperation | Overflow | ValueError | CsvError

fun is_FormatError :: "error \<Rightarrow> bool" where
  "is_FormatError (CliError PriceMissing) = True"
| "is_FormatError (CliError PriceCommaSeparator) = True"
| "is_FormatError (CliError (PriceInvalid t)) = True"
| "is_FormatError (CliError (PriceNegative t)) = True"
| "is_FormatError (CliError QtyMissing) = True"
| "is_FormatError (CliError (QtyNotInteger t)) = True"
| "is_FormatError e = False"

subsection \<open>Characters and \<open>str\<close> methods\<close>

definition code_point :: "char \<Rightarrow> nat" where
  "code_point c = of_char c"

text \<open>\<open>str.isspace\<close> on one character: the white space of Unicode below 256.\<close>

definition isspace :: "char \<Rightarrow> bool" where
  "isspace c = (let n = code_point c in
     (9 \<le> n \<and> n \<le> 13) \<or> (28 \<le> n \<and> n \<le> 32) \<or> n = 133 \<or> n = 160)"

text \<open>\<open>str.isdecimal\<close> on one character (general category Nd): the ASCII digits.\<close>

definition isdecimal :: "char \<Rightarrow> bool" where
  "isdecimal c = (let n = code_point c in 48 \<le> n \<and> n \<le> 57)"

text \<open>
  \<open>str.isdigit\<close> on one character: the decimal digits and the characters of numeric type
  Digit, which below 256 are the superscripts two, three and one.
\<close>

definition isdigit_char :: "char \<Rightarrow> bool" where
  "isdigit_char c = (let n = code_point c in
     (48 \<le> n \<and> n \<le> 57) \<or> n = 178 \<or> n = 179 \<or> n = 185)"

text \<open>\<open>str.isdigit\<close>: every character is a digit and there is at least one.\<close>

definition isdigit :: "string \<Rightarrow> bool" where
  "isdigit s = (s \<noteq> [] \<and> list_all isdigit_char s)"

text \<open>
  The word characters of \<open>re\<close> for a \<open>str\<close> pattern (\<open>\w\<close>): alphanumeric characters and the
  underscore.
\<close>

definition isword :: "char \<Rightarrow> bool" where
  "isword c = (let n = code_point c in
     (48 \<le> n \<and> n \<le> 57) \<or> (65 \<le> n \<and> n \<le> 90) \<or> n = 95 \<or> (97 \<le> n \<and> n \<le> 122)
     \<or> n = 170 \<or> n = 178 \<or> n = 179 \<or> n = 181 \<or> n = 185 \<or> n = 186
     \<or> (188 \<le> n \<and> n \<le> 190) \<or> (192 \<le> n \<and> n \<le> 214) \<or> (216 \<le> n \<and> n \<le> 246)
     \<or> 248 \<le> n)"

definition isupper_char :: "char \<Rightarrow> bool" where
  "isupper_char c = (let n = code_point c in
     (65 \<le> n \<and> n \<le> 90) \<or> (192 \<le> n \<and> n \<le> 222 \<and> n \<noteq> 215))"

text \<open>
  \<open>str.lower\<close>: below 256 the lower-case partner of an upper-case letter is 32 code points
  above it, which is the letter with bit 5 set.
\<close>

definition lower_char :: "char \<Rightarrow> char" where
  "lower_char c = (if isupper_char c
     then (case c of Char b0 b1 b2 b3 b4 b5 b6 b7 \<Rightarrow> Char b0 b1 b2 b3 b4 True b6 b7)
     else c)"

definition lower :: "string \<Rightarrow> string" where
  "lower s = map lower_char s"

text \<open>\<open>str.strip()\<close>: white space removed at both ends.\<close>

definition strip :: "string \<Rightarrow> string" where
  "strip s = rev (dropWhile isspace (rev (dropWhile isspace s)))"

text \<open>\<open>x or ""\<close> for \<open>x\<close> a \<open>str\<close> or \<open>None\<close>.\<close>

definition or_empty :: "string option \<Rightarrow> string" where
  "or_empty raw = (case raw of None \<Rightarrow> [] | Some s \<Rightarrow> s)"

text \<open>\<open>sep.join(xs)\<close>.\<close>

fun join :: "string \<Rightarrow> string list \<Rightarrow> string" where
  "join sep [] = []"
| "join sep [x] = x"
| "join sep (x # y # ys) = x @ sep @ join sep (y # ys)"

subsection \<open>Decimal digits\<close>

definition digit_val :: "char \<Rightarrow> nat" where
  "digit_val c = code_point c - 48"

definition digits_val :: "string \<Rightarrow> nat" where
  "digits_val ds = foldl (\<lambda>a c. 10 * a + digit_val c) 0 ds"

text \<open>\<open>len(str(n))\<close> for a natural number: the number of its decimal digits, 1 for 0.\<close>

fun ndigits :: "nat \<Rightarrow> nat" where
  "ndigits n = (if n < 10 then 1 else Suc (ndigits (n div 10)))"

declare ndigits.simps [simp del]

text \<open>\<open>str(n)\<close> for a natural number.\<close>

fun str_nat :: "nat \<Rightarrow> string" where
  "str_nat n = (if n < 10 then [''0123456789'' ! n]
     else str_nat (n div 10) @ [''0123456789'' ! (n mod 10)])"

declare str_nat.simps [simp del]

text \<open>
  \<open>int(text)\<close> in base 10: white space is stripped, a sign is optional, and the digits are
  decimal digits with single underscores allowed between them.
\<close>

fun int_body_ok :: "string \<Rightarrow> bool" where
  "int_body_ok [] = False"
| "int_body_ok [c] = isdecimal c"
| "int_body_ok (c # d # s) =
     (isdecimal c \<and> (if d = CHR ''_'' then int_body_ok s else int_body_ok (d # s)))"

definition py_int :: "string \<Rightarrow> error + int" where
  "py_int text = (let t = strip text;
       neg = (t \<noteq> [] \<and> hd t = CHR ''-'');
       body = (if t \<noteq> [] \<and> (hd t = CHR ''-'' \<or> hd t = CHR ''+'') then tl t else t)
     in if int_body_ok body
        then (let v = int (digits_val (filter (\<lambda>c. c \<noteq> CHR ''_'') body))
              in Inr (if neg then - v else v))
        else Inl ValueError)"

subsection \<open>\<open>decimal.Decimal\<close> under the default context\<close>

text \<open>
  A \<open>Decimal\<close> is a sign, a coefficient and an exponent, or an infinity, or a NaN (its sign,
  whether it signals, its payload). The coefficient is kept as a number: the library keeps
  its decimal digits without leading zeros, so the length of the digit string is
  \<^const>\<open>ndigits\<close>.

  The program never changes the context of its thread, so every operation runs under the
  default context: precision 28, rounding \<open>ROUND_HALF_EVEN\<close>, exponents between -999999 and
  999999, no clamping, and the traps \<open>InvalidOperation\<close>, \<open>DivisionByZero\<close> and \<open>Overflow\<close>
  enabled: a trapped signal is raised as an exception, the other signals only set flags.
\<close>

datatype decimal = Finite bool nat int | Infinity bool | NaN bool bool nat

datatype rounding = ROUND_HALF_UP | ROUND_HALF_EVEN

definition prec :: nat where
  "prec = 28"

definition Emax :: int where
  "Emax = 999999"

definition Emin :: int where
  "Emin = - 999999"

definition Etiny :: int where
  "Etiny = Emin - int prec + 1"

definition Etop :: int where
  "Etop = Emax - int prec + 1"

text \<open>\<open>Decimal.adjusted()\<close> of a finite number: the exponent of its leading digit.\<close>

definition adjusted :: "nat \<Rightarrow> int \<Rightarrow> int" where
  "adjusted c e = e + int (ndigits c) - 1"

text \<open>
  The coefficient \<open>c\<close> with its last \<open>k\<close> digits rounded away. Half-up adds one when the
  first dropped digit is 5 or more; half-even does the same except at an exact half, where
  it adds one only to an odd quotient.
\<close>

definition round_drop :: "rounding \<Rightarrow> nat \<Rightarrow> nat \<Rightarrow> nat" where
  "round_drop r c k = (let q = c div 10 ^ k; m = c mod 10 ^ k in
     case r of
       ROUND_HALF_UP \<Rightarrow> (if 10 ^ k \<le> 2 * m then q + 1 else q)
     | ROUND_HALF_EVEN \<Rightarrow> (if 10 ^ k < 2 * m \<or> (2 * m = 10 ^ k \<and> odd q) then q + 1 else q))"

text \<open>
  The coefficient of \<open>c\<close> at exponent \<open>e\<close> rounded to the higher exponent \<open>ex\<close>. As in the
  library, a number whose leading digit lies more than one place below \<open>ex\<close> rounds to
  zero without its digits being looked at.
\<close>

definition round_to :: "rounding \<Rightarrow> nat \<Rightarrow> int \<Rightarrow> int \<Rightarrow> nat" where
  "round_to r c e ex =
     (if int (ndigits c) + e - ex < 0 then 0 else round_drop r c (nat (ex - e)))"

text \<open>\<open>Decimal._rescale(exp, rounding)\<close> of a finite number.\<close>

definition rescale :: "bool \<Rightarrow> nat \<Rightarrow> int \<Rightarrow> int \<Rightarrow> rounding \<Rightarrow> decimal" where
  "rescale s c e ex r =
     (if c = 0 then Finite s 0 ex
      else if ex \<le> e then Finite s (c * 10 ^ nat (e - ex)) ex
      else Finite s (round_to r c e ex) ex)"

text \<open>
  \<open>Decimal._fix(context)\<close>: the result of an operation rounded to the precision of the
  context. A result above \<open>Emax\<close> signals \<open>Overflow\<close>, which is trapped.
\<close>

definition dec_fix :: "decimal \<Rightarrow> error + decimal" where
  "dec_fix d = (case d of
     Finite s c e \<Rightarrow>
       if c = 0 then Inr (Finite s 0 (min (max e Etiny) Emax))
       else (let exp_min0 = int (ndigits c) + e - int prec in
         if Etop < exp_min0 then Inl Overflow
         else (let exp_min = max exp_min0 Etiny in
           if e < exp_min
           then (let q = round_to ROUND_HALF_EVEN c e exp_min;
                     coeff = (if prec < ndigits q then q div 10 else q);
                     ex = (if prec < ndigits q then exp_min + 1 else exp_min)
                 in if Etop < ex then Inl Overflow else Inr (Finite s coeff ex))
           else Inr d))
   | Infinity s \<Rightarrow> Inr d
   | NaN s sig p \<Rightarrow> Inr (NaN s sig (p mod 10 ^ prec)))"

text \<open>
  \<open>Decimal._check_nans\<close>: with a NaN among the operands the operation raises
  \<open>InvalidOperation\<close> for a signalling one and returns the first quiet one otherwise.
\<close>

definition check_nans :: "decimal \<Rightarrow> decimal \<Rightarrow> (error + decimal) option" where
  "check_nans a b = (case (a, b) of
     (NaN s True p, _) \<Rightarrow> Some (Inl InvalidOperation)
   | (_, NaN s True p) \<Rightarrow> Some (Inl InvalidOperation)
   | (NaN s False p, _) \<Rightarrow> Some (dec_fix a)
   | (_, NaN s False p) \<Rightarrow> Some (dec_fix b)
   | _ \<Rightarrow> None)"

text \<open>\<open>self.quantize(exp, rounding=r)\<close>.\<close>

definition quantize :: "decimal \<Rightarrow> decimal \<Rightarrow> rounding \<Rightarrow> error + decimal" where
  "quantize self expd r = (case check_nans self expd of
     Some res \<Rightarrow> res
   | None \<Rightarrow> (case (self, expd) of
       (Infinity s, Infinity t) \<Rightarrow> Inr self
     | (Infinity s, _) \<Rightarrow> Inl InvalidOperation
     | (_, Infinity t) \<Rightarrow> Inl InvalidOperation
     | (Finite s c e, Finite t d ex) \<Rightarrow>
         if \<not> (Etiny \<le> ex \<and> ex \<le> Emax) then Inl InvalidOperation
         else if c = 0 then dec_fix (Finite s 0 ex)
         else if Emax < adjusted c e then Inl InvalidOperation
         else if int prec < adjusted c e - ex + 1 then Inl InvalidOperation
         else (case rescale s c e ex r of
             Finite s' c' e' \<Rightarrow>
               if Emax < adjusted c' e' then Inl InvalidOperation
               else if prec < ndigits c' then Inl InvalidOperation
               else dec_fix (Finite s' c' e')
           | other \<Rightarrow> Inr other)
     | _ \<Rightarrow> Inl InvalidOperation))"

text \<open>\<open>Decimal(n)\<close> for an integer: exact.\<close>

definition Decimal_of_int :: "int \<Rightarrow> decimal" where
  "Decimal_of_int n = Finite (n < 0) (nat \<bar>n\<bar>) 0"

text \<open>\<open>a * b\<close>: the exact product, then \<open>_fix\<close>.\<close>

definition dec_mul :: "decimal \<Rightarrow> decimal \<Rightarrow> error + decimal" where
  "dec_mul a b = (case check_nans a b of
     Some res \<Rightarrow> res
   | None \<Rightarrow> (case (a, b) of
       (Finite s c e, Finite t d f) \<Rightarrow> dec_fix (Finite (s \<noteq> t) (c * d) (e + f))
     | (Infinity s, Finite t d f) \<Rightarrow>
         if d = 0 then Inl InvalidOperation else Inr (Infinity (s \<noteq> t))
     | (Finite s c e, Infinity t) \<Rightarrow>
         if c = 0 then Inl InvalidOperation else Inr (Infinity (s \<noteq> t))
     | (Infinity s, Infinity t) \<Rightarrow> Inr (Infinity (s \<noteq> t))
     | _ \<Rightarrow> Inl InvalidOperation))"

text \<open>
  \<open>_normalize(op1, op2, prec)\<close> of the addition: both operands brought to one exponent.
  An operand too small to matter after rounding is replaced by a one at an exponent just
  below the other's last kept digit.
\<close>

definition normalize :: "nat \<times> int \<Rightarrow> nat \<times> int \<Rightarrow> (nat \<times> int) \<times> (nat \<times> int)" where
  "normalize op1 op2 = (let swapped = (snd op1 < snd op2);
       tmp = (if swapped then op2 else op1);
       other = (if swapped then op1 else op2);
       ex = snd tmp + min (- 1) (int (ndigits (fst tmp)) - int prec - 2);
       other' = (if int (ndigits (fst other)) + snd other - 1 < ex then (1, ex) else other);
       tmp' = (fst tmp * 10 ^ nat (snd tmp - snd other'), snd other')
     in if swapped then (other', tmp') else (tmp', other'))"

text \<open>\<open>a + b\<close> (the rounding mode of the context is not \<open>ROUND_FLOOR\<close>).\<close>

definition dec_add :: "decimal \<Rightarrow> decimal \<Rightarrow> error + decimal" where
  "dec_add a b = (case check_nans a b of
     Some res \<Rightarrow> res
   | None \<Rightarrow> (case (a, b) of
       (Infinity s, Infinity t) \<Rightarrow> if s \<noteq> t then Inl InvalidOperation else Inr a
     | (Infinity s, _) \<Rightarrow> Inr a
     | (_, Infinity t) \<Rightarrow> Inr b
     | (Finite s c e, Finite t d f) \<Rightarrow>
         (let ex = min e f in
          if c = 0 \<and> d = 0 then dec_fix (Finite (s \<and> t) 0 ex)
          else if c = 0 then
            dec_fix (rescale t d f (max ex (f - int prec - 1)) ROUND_HALF_EVEN)
          else if d = 0 then
            dec_fix (rescale s c e (max ex (e - int prec - 1)) ROUND_HALF_EVEN)
          else (case normalize (c, e) (d, f) of ((i1, e1), (i2, e2)) \<Rightarrow>
            if s \<noteq> t then
              (if i1 = i2 then dec_fix (Finite False 0 ex)
               else if i1 < i2 then dec_fix (Finite t (i2 - i1) e1)
               else dec_fix (Finite s (i1 - i2) e1))
            else dec_fix (Finite s (i1 + i2) e1)))
     | _ \<Rightarrow> Inl InvalidOperation))"

text \<open>
  \<open>value < 0\<close>: an ordering comparison with a NaN signals \<open>InvalidOperation\<close>; a zero of
  either sign is not below zero.
\<close>

definition dec_lt_zero :: "decimal \<Rightarrow> error + bool" where
  "dec_lt_zero v = (case v of
     NaN s sig p \<Rightarrow> Inl InvalidOperation
   | Infinity s \<Rightarrow> Inr s
   | Finite s c e \<Rightarrow> Inr (s \<and> c \<noteq> 0))"

text \<open>
  \<open>Decimal(text)\<close>. White space is stripped and underscores are removed; what is left is
  an optional sign followed by a number (digits with an optional point and an optional
  exponent, at least one digit), an infinity, or a NaN with an optional payload, letters
  in either case. The conversion is exact; it raises \<open>InvalidOperation\<close> (here \<open>None\<close>) for
  any other text, and, as the C implementation on a 64-bit machine does, for a number
  whose exponent is outside what that implementation can hold.
\<close>

definition parse_exponent :: "string \<Rightarrow> int option" where
  "parse_exponent s = (let neg = (s \<noteq> [] \<and> hd s = CHR ''-'');
       ds = (if s \<noteq> [] \<and> (hd s = CHR ''-'' \<or> hd s = CHR ''+'') then tl s else s)
     in if ds \<noteq> [] \<and> list_all isdecimal ds
        then Some (if neg then - int (digits_val ds) else int (digits_val ds))
        else None)"

definition parse_number :: "string \<Rightarrow> (nat \<times> int) option" where
  "parse_number s = (let ip = takeWhile isdecimal s; r1 = dropWhile isdecimal s;
       dot = (r1 \<noteq> [] \<and> hd r1 = CHR ''.'');
       fp = (if dot then takeWhile isdecimal (tl r1) else []);
       r2 = (if dot then dropWhile isdecimal (tl r1) else r1)
     in if ip = [] \<and> fp = [] then None
        else if r2 = [] then Some (digits_val (ip @ fp), - int (length fp))
        else if hd r2 = CHR ''e'' \<or> hd r2 = CHR ''E''
        then (case parse_exponent (tl r2) of
                None \<Rightarrow> None
              | Some x \<Rightarrow> Some (digits_val (ip @ fp), x - int (length fp)))
        else None)"

definition Decimal_of_str :: "string \<Rightarrow> decimal option" where
  "Decimal_of_str text = (let t = filter (\<lambda>c. c \<noteq> CHR ''_'') (strip text);
       sign = (t \<noteq> [] \<and> hd t = CHR ''-'');
       body = (if t \<noteq> [] \<and> (hd t = CHR ''-'' \<or> hd t = CHR ''+'') then tl t else t);
       low = lower body
     in case parse_number body of
          Some (c, e) \<Rightarrow>
            if - 1999999999999999997 \<le> e \<and> adjusted c e \<le> 999999999999999999
            then Some (Finite sign c e) else None
        | None \<Rightarrow>
            if low = ''inf'' \<or> low = ''infinity'' then Some (Infinity sign)
            else if take 3 low = ''nan'' \<and> list_all isdecimal (drop 3 low)
            then Some (NaN sign False (digits_val (drop 3 low)))
            else if take 4 low = ''snan'' \<and> list_all isdecimal (drop 4 low)
            then Some (NaN sign True (digits_val (drop 4 low)))
            else None)"

text \<open>
  \<open>f"{d:.2f}"\<close>: the number rescaled to two fractional digits under the rounding of the
  context, then written as sign, integer digits, point and two fractional digits. The
  special values are written by name.
\<close>

definition format_2f :: "decimal \<Rightarrow> string" where
  "format_2f d = (case d of
     Finite s c e \<Rightarrow> (case rescale s c e (- 2) ROUND_HALF_EVEN of
         Finite s' c' e' \<Rightarrow>
           (if s' then ''-'' else []) @ str_nat (c' div 100) @ ''.''
             @ [''0123456789'' ! (c' div 10 mod 10), ''0123456789'' ! (c' mod 10)]
       | other \<Rightarrow> [])
   | Infinity s \<Rightarrow> (if s then ''-'' else []) @ ''Infinity''
   | NaN s sig p \<Rightarrow> (if s then ''-'' else []) @ (if sig then ''sNaN'' else ''NaN'')
       @ (if p = 0 then [] else str_nat p))"

subsection \<open>The field parsers\<close>

text \<open>
  \<open>parse_price(raw)\<close>, lines 71 to 84. The argument is a \<open>str\<close> or \<open>None\<close> (the cell of a
  short row). Only the conversion \<open>Decimal(text)\<close> stands inside the \<open>try\<close>; the comparison
  and \<open>quantize\<close> stand outside, so what they raise leaves the function as it is.
\<close>

definition parse_price :: "string option \<Rightarrow> error + decimal" where
  "parse_price raw = (let text = strip (or_empty raw) in
     if text = [] then Inl (CliError PriceMissing)
     else if CHR '','' \<in> set text \<and> CHR ''.'' \<notin> set text
     then Inl (CliError PriceCommaSeparator)
     else (case Decimal_of_str text of
         None \<Rightarrow> Inl (CliError (PriceInvalid text))
       | Some v \<Rightarrow> (case dec_lt_zero v of
           Inl err \<Rightarrow> Inl err
         | Inr True \<Rightarrow> Inl (CliError (PriceNegative text))
         | Inr False \<Rightarrow> quantize v (Finite False 1 (- 2)) ROUND_HALF_UP)))"

text \<open>\<open>parse_qty(raw)\<close>, lines 87 to 95.\<close>

definition parse_qty :: "string option \<Rightarrow> error + int" where
  "parse_qty raw = (let text = strip (or_empty raw) in
     if text = [] then Inl (CliError QtyMissing)
     else if \<not> isdigit text then Inl (CliError (QtyNotInteger text))
     else py_int text)"

subsection \<open>Reading the file\<close>

text \<open>
  \<open>Path.read_text\<close> opens the file with universal newlines: \<open>\r\n\<close> and a lone \<open>\r\<close> are read
  as \<open>\n\<close>. This is the sample the delimiter is detected on.
\<close>

fun translate_newlines :: "string \<Rightarrow> string" where
  "translate_newlines [] = []"
| "translate_newlines [c] = (if c = CHR 0x0D then [CHR 0x0A] else [c])"
| "translate_newlines (c # d # s) =
     (if c = CHR 0x0D \<and> d = CHR 0x0A then CHR 0x0A # translate_newlines s
      else if c = CHR 0x0D then CHR 0x0A # translate_newlines (d # s)
      else c # translate_newlines (d # s))"

text \<open>
  The lines of a file opened with \<open>newline=""\<close>: a line ends after \<open>\n\<close>, \<open>\r\n\<close> or a lone
  \<open>\r\<close>, and keeps its ending. \<open>cur\<close> holds the characters of the line read so far, last
  first.
\<close>

fun file_lines :: "string \<Rightarrow> string \<Rightarrow> string list" where
  "file_lines cur [] = (if cur = [] then [] else [rev cur])"
| "file_lines cur [c] = [rev (c # cur)]"
| "file_lines cur (c # d # s) =
     (if c = CHR 0x0A then rev (c # cur) # file_lines [] (d # s)
      else if c = CHR 0x0D \<and> d = CHR 0x0A then rev (d # c # cur) # file_lines [] s
      else if c = CHR 0x0D then rev (c # cur) # file_lines [] (d # s)
      else file_lines (c # cur) (d # s))"

subsection \<open>\<open>csv.reader\<close> with the excel dialect\<close>

text \<open>
  The reader of the program is \<open>csv.DictReader(fh, delimiter=delimiter)\<close>: the excel
  dialect (quote character \<open>"\<close>, doubled quotes, no escape character, initial spaces kept,
  not strict, minimal quoting) with the detected delimiter. The states of the C parser that
  only an escape character reaches are left out. A field may hold 131072 characters; one
  more raises \<open>csv.Error\<close>.
\<close>

datatype parser_state =
  START_RECORD | START_FIELD | IN_FIELD | IN_QUOTED_FIELD | QUOTE_IN_QUOTED_FIELD | EAT_CRNL

record reader =
  state :: parser_state
  row_fields :: "string list"
  field :: string

definition field_limit :: nat where
  "field_limit = 131072"

definition parse_reset :: reader where
  "parse_reset = \<lparr>state = START_RECORD, row_fields = [], field = []\<rparr>"

definition parse_add_char :: "reader \<Rightarrow> char \<Rightarrow> error + reader" where
  "parse_add_char r c =
     (if field_limit \<le> length (field r) then Inl CsvError
      else Inr (r\<lparr>field := field r @ [c]\<rparr>))"

definition parse_save_field :: "reader \<Rightarrow> reader" where
  "parse_save_field r = r\<lparr>row_fields := row_fields r @ [field r], field := []\<rparr>"

text \<open>The end of a line as the parser sees it: \<open>\n\<close>, \<open>\r\<close> or the end-of-line mark.\<close>

definition line_end :: "char option \<Rightarrow> bool" where
  "line_end c = (c = None \<or> c = Some (CHR 0x0A) \<or> c = Some (CHR 0x0D))"

definition after_line_end :: "char option \<Rightarrow> parser_state" where
  "after_line_end c = (if c = None then START_RECORD else EAT_CRNL)"

text \<open>
  \<open>parse_process_char\<close>: one step of the parser on a character of the line, or on the
  end-of-line mark \<open>None\<close> that follows each line. \<open>START_RECORD\<close> falls through to
  \<open>START_FIELD\<close> on an ordinary character.
\<close>

definition start_field :: "char \<Rightarrow> reader \<Rightarrow> char option \<Rightarrow> error + reader" where
  "start_field delim r c =
     (if line_end c then Inr ((parse_save_field r)\<lparr>state := after_line_end c\<rparr>)
      else if c = Some (CHR 0x22) then Inr (r\<lparr>state := IN_QUOTED_FIELD\<rparr>)
      else if c = Some delim then Inr (parse_save_field r)
      else (case parse_add_char r (the c) of
          Inl err \<Rightarrow> Inl err
        | Inr r' \<Rightarrow> Inr (r'\<lparr>state := IN_FIELD\<rparr>)))"

definition parse_process_char :: "char \<Rightarrow> reader \<Rightarrow> char option \<Rightarrow> error + reader" where
  "parse_process_char delim r c = (case state r of
     START_RECORD \<Rightarrow>
       if c = None then Inr r
       else if line_end c then Inr (r\<lparr>state := EAT_CRNL\<rparr>)
       else start_field delim (r\<lparr>state := START_FIELD\<rparr>) c
   | START_FIELD \<Rightarrow> start_field delim r c
   | IN_FIELD \<Rightarrow>
       if line_end c then Inr ((parse_save_field r)\<lparr>state := after_line_end c\<rparr>)
       else if c = Some delim then Inr ((parse_save_field r)\<lparr>state := START_FIELD\<rparr>)
       else parse_add_char r (the c)
   | IN_QUOTED_FIELD \<Rightarrow>
       if c = None then Inr r
       else if c = Some (CHR 0x22) then Inr (r\<lparr>state := QUOTE_IN_QUOTED_FIELD\<rparr>)
       else parse_add_char r (the c)
   | QUOTE_IN_QUOTED_FIELD \<Rightarrow>
       if c = Some (CHR 0x22) then
         (case parse_add_char r (the c) of
            Inl err \<Rightarrow> Inl err
          | Inr r' \<Rightarrow> Inr (r'\<lparr>state := IN_QUOTED_FIELD\<rparr>))
       else if c = Some delim then Inr ((parse_save_field r)\<lparr>state := START_FIELD\<rparr>)
       else if line_end c then Inr ((parse_save_field r)\<lparr>state := after_line_end c\<rparr>)
       else (case parse_add_char r (the c) of
            Inl err \<Rightarrow> Inl err
          | Inr r' \<Rightarrow> Inr (r'\<lparr>state := IN_FIELD\<rparr>))
   | EAT_CRNL \<Rightarrow>
       if c = None then Inr (r\<lparr>state := START_RECORD\<rparr>)
       else if line_end c then Inr r
       else Inl CsvError)"

text \<open>The characters of one line, then the end-of-line mark.\<close>

fun feed :: "char \<Rightarrow> reader \<Rightarrow> string \<Rightarrow> error + reader" where
  "feed delim r [] = parse_process_char delim r None"
| "feed delim r (c # cs) = (case parse_process_char delim r (Some c) of
     Inl err \<Rightarrow> Inl err
   | Inr r' \<Rightarrow> feed delim r' cs)"

text \<open>
  What the successive calls of \<open>next(reader)\<close> give, in order: a row, or the exception that
  ends the iteration. \<open>Reader_iternext\<close> resets the parser, then feeds lines until the
  parser is back in \<open>START_RECORD\<close>; when the lines run out inside a record, the record is
  returned if a field was begun or a quoted field is open, and the iteration stops
  otherwise.
\<close>

fun reader_rows :: "char \<Rightarrow> reader \<Rightarrow> string list \<Rightarrow> (error + string list) list" where
  "reader_rows delim r [] =
     (if field r \<noteq> [] \<or> state r = IN_QUOTED_FIELD
      then [Inr (row_fields (parse_save_field r))] else [])"
| "reader_rows delim r (l # ls) = (case feed delim r l of
     Inl err \<Rightarrow> [Inl err]
   | Inr r' \<Rightarrow>
       if state r' = START_RECORD then Inr (row_fields r') # reader_rows delim parse_reset ls
       else reader_rows delim r' ls)"

definition csv_reader :: "char \<Rightarrow> string \<Rightarrow> (error + string list) list" where
  "csv_reader delim content = reader_rows delim parse_reset (file_lines [] content)"

subsection \<open>\<open>csv.DictReader\<close>\<close>

text \<open>
  A row of the \<open>DictReader\<close> is \<open>dict(zip(fieldnames, row))\<close>, and a row shorter than the
  header gets \<open>None\<close> (\<open>restval\<close>) under each field name past its end. The keys are the field
  names as the header row spells them. A cell is a \<open>str\<close> or \<open>None\<close>, so a row is a map from
  keys to \<^typ>\<open>string option\<close>. The surplus cells of a long row go under the key \<open>None\<close>
  (\<open>restkey\<close>), which no lookup of the program uses; the model keeps the entries under
  \<open>str\<close> keys.
\<close>

type_synonym dict_row = "string \<rightharpoonup> string option"

definition make_row :: "string list \<Rightarrow> string list \<Rightarrow> dict_row" where
  "make_row fieldnames row =
     fold (\<lambda>k m. m(k \<mapsto> None)) (drop (length row) fieldnames)
       (Map.empty(fieldnames [\<mapsto>] map Some row))"

text \<open>\<open>row.get(key)\<close> and \<open>row.get(key, "")\<close>.\<close>

definition get :: "dict_row \<Rightarrow> string \<Rightarrow> string option" where
  "get row k = (case row k of None \<Rightarrow> None | Some v \<Rightarrow> v)"

definition get_or_empty :: "dict_row \<Rightarrow> string \<Rightarrow> string option" where
  "get_or_empty row k = (case row k of None \<Rightarrow> Some [] | Some v \<Rightarrow> v)"

subsection \<open>The loader\<close>

text \<open>
  \<open>detect_delimiter(sample)\<close>, lines 55 to 68. \<open>csv.Sniffer().sniff\<close> is a heuristic of the
  standard library (regular-expression scans for quoted fields, then character frequencies
  compared against floating-point consistency thresholds). It is a parameter of the model:
  \<open>sniff sample delimiters\<close> is the delimiter of the dialect it returns, or \<open>None\<close> when it
  raises \<open>csv.Error\<close>.
\<close>

type_synonym sniffer = "string \<Rightarrow> string \<Rightarrow> char option"

definition detect_delimiter :: "sniffer \<Rightarrow> string \<Rightarrow> error + char" where
  "detect_delimiter sniff sample = (let possible = '',;'' in
     case sniff sample possible of
       None \<Rightarrow> Inl (CliError DelimiterUndetermined)
     | Some delimiter \<Rightarrow>
         if delimiter \<in> set possible then Inr delimiter
         else Inl (CliError DelimiterUndetermined))"

text \<open>An entry of \<open>items\<close>: the price and the line total are stored formatted.\<close>

record item =
  product :: string
  price :: string
  qty :: int
  line_total :: string

text \<open>
  The body of the loop of \<open>read_csv_rows\<close>, lines 118 to 132, on one row: the new item and
  its line total as a number.
\<close>

definition process_row :: "dict_row \<Rightarrow> error + (item \<times> decimal)" where
  "process_row row = (let p = strip (or_empty (get row ''product'')) in
     if p = [] then Inl (CliError EmptyProduct)
     else (case parse_price (get_or_empty row ''price'') of
         Inl err \<Rightarrow> Inl err
       | Inr pr \<Rightarrow> (case parse_qty (get_or_empty row ''qty'') of
           Inl err \<Rightarrow> Inl err
         | Inr q \<Rightarrow> (case dec_mul pr (Decimal_of_int q) of
             Inl err \<Rightarrow> Inl err
           | Inr m \<Rightarrow> (case quantize m (Finite False 1 (- 2)) ROUND_HALF_UP of
               Inl err \<Rightarrow> Inl err
             | Inr lt \<Rightarrow> Inr (\<lparr>product = p, price = format_2f pr, qty = q,
                                line_total = format_2f lt\<rparr>, lt))))))"

text \<open>
  The loop \<open>for row in reader\<close>, lines 117 to 132, over what the underlying reader still
  gives. The \<open>DictReader\<close> skips empty rows. \<open>items\<close> and \<open>total\<close> are the loop's variables.
\<close>

fun rows_loop ::
  "string list \<Rightarrow> (error + string list) list \<Rightarrow> item list \<Rightarrow> decimal
     \<Rightarrow> error + (item list \<times> decimal)" where
  "rows_loop fieldnames [] items tot = Inr (items, tot)"
| "rows_loop fieldnames (Inl err # rest) items tot = Inl err"
| "rows_loop fieldnames (Inr row # rest) items tot =
     (if row = [] then rows_loop fieldnames rest items tot
      else (case process_row (make_row fieldnames row) of
          Inl err \<Rightarrow> Inl err
        | Inr (it, lt) \<Rightarrow> (case dec_add tot lt of
            Inl err \<Rightarrow> Inl err
          | Inr tot' \<Rightarrow> rows_loop fieldnames rest (items @ [it]) tot')))"

text \<open>
  \<open>read_csv_rows(csv_path)\<close>, lines 98 to 136. The file is \<open>None\<close> when the path does not
  exist and its decoded content otherwise: the model starts from the text of a file that
  is valid UTF-8, which both reads of the source decode to the same characters.
\<close>

definition required :: "string set" where
  "required = {''product'', ''price'', ''qty''}"

definition read_csv_rows :: "sniffer \<Rightarrow> string option \<Rightarrow> error + (item list \<times> decimal)" where
  "read_csv_rows sniff file = (case file of
     None \<Rightarrow> Inl (CliError CsvNotFound)
   | Some content \<Rightarrow>
       (let sample = translate_newlines content in
        if strip sample = [] then Inl (CliError CsvEmpty)
        else (case detect_delimiter sniff sample of
            Inl err \<Rightarrow> Inl err
          | Inr delimiter \<Rightarrow> (case csv_reader delimiter content of
              [] \<Rightarrow> Inl (CliError HeaderMissing)
            | Inl err # rest \<Rightarrow> Inl err
            | Inr fieldnames # rest \<Rightarrow>
                if fieldnames = [] then Inl (CliError HeaderMissing)
                else (let headers = set (map (\<lambda>h. lower (strip h)) fieldnames);
                          missing = required - headers
                      in if missing \<noteq> {}
                         then Inl (CliError (MissingColumns
                                (join '', '' (sorted_list_of_set missing))))
                         else (case rows_loop fieldnames rest [] (Finite False 0 (- 2)) of
                             Inl err \<Rightarrow> Inl err
                           | Inr (items, tot) \<Rightarrow>
                               if items = [] then Inl (CliError NoData)
                               else (case quantize tot (Finite False 1 (- 2)) ROUND_HALF_UP of
                                   Inl err \<Rightarrow> Inl err
                                 | Inr tot' \<Rightarrow> Inr (items, tot'))))))))"

subsection \<open>The placeholder check\<close>

text \<open>
  The regular expressions the check needs: literal text, a negated one-character class,
  \<open>\w\<close>, \<open>\b\<close>, sequence, \<open>?\<close>, \<open>*\<close> and \<open>+\<close>. A position in the text is the character
  before it (\<open>None\<close> at the start) and the text from it on. \<open>matches r p\<close> lists the positions
  where a match of \<open>r\<close> that starts at \<open>p\<close> can end. \<open>re.search\<close> only asks whether some
  start has a match, so the order in which a backtracking matcher tries them does not
  matter here.
\<close>

datatype regex =
    Lit string
  | NotChar char
  | Word
  | Boundary
  | Seq regex regex
  | Opt regex
  | Star regex
  | Plus regex

type_synonym pos = "char option \<times> string"

definition isword_opt :: "char option \<Rightarrow> bool" where
  "isword_opt c = (case c of None \<Rightarrow> False | Some x \<Rightarrow> isword x)"

definition next_char :: "string \<Rightarrow> char option" where
  "next_char s = (case s of [] \<Rightarrow> None | x # xs \<Rightarrow> Some x)"

fun lit_match :: "string \<Rightarrow> pos \<Rightarrow> pos list" where
  "lit_match [] p = [p]"
| "lit_match (c # w) (prev, []) = []"
| "lit_match (c # w) (prev, x # xs) = (if x = c then lit_match w (Some x, xs) else [])"

definition char_match :: "(char \<Rightarrow> bool) \<Rightarrow> pos \<Rightarrow> pos list" where
  "char_match P p = (case snd p of
     [] \<Rightarrow> []
   | x # xs \<Rightarrow> if P x then [(Some x, xs)] else [])"

text \<open>
  Repetition: the positions reached by zero or more rounds of \<open>f\<close>, each round consuming
  text. At most as many rounds as characters are left can do so.
\<close>

fun iter :: "(pos \<Rightarrow> pos list) \<Rightarrow> nat \<Rightarrow> pos \<Rightarrow> pos list" where
  "iter f 0 p = [p]"
| "iter f (Suc n) p =
     p # concat (map (iter f n) (filter (\<lambda>q. length (snd q) < length (snd p)) (f p)))"

primrec matches :: "regex \<Rightarrow> pos \<Rightarrow> pos list" where
  "matches (Lit w) = lit_match w"
| "matches (NotChar c) = char_match (\<lambda>x. x \<noteq> c)"
| "matches Word = char_match isword"
| "matches Boundary =
     (\<lambda>p. if isword_opt (fst p) \<noteq> isword_opt (next_char (snd p)) then [p] else [])"
| "matches (Seq a b) = (\<lambda>p. concat (map (matches b) (matches a p)))"
| "matches (Opt a) = (\<lambda>p. matches a p @ [p])"
| "matches (Star a) = (\<lambda>p. iter (matches a) (length (snd p)) p)"
| "matches (Plus a) =
     (\<lambda>p. concat (map (\<lambda>q. iter (matches a) (length (snd q)) q) (matches a p)))"

text \<open>The positions of a text, first to last.\<close>

fun positions :: "char option \<Rightarrow> string \<Rightarrow> pos list" where
  "positions prev [] = [(prev, [])]"
| "positions prev (c # s) = (prev, c # s) # positions (Some c) s"

text \<open>\<open>bool(pattern.search(text))\<close>.\<close>

definition search :: "regex \<Rightarrow> string \<Rightarrow> bool" where
  "search r text = list_ex (\<lambda>p. matches r p \<noteq> []) (positions None text)"

text \<open>
  The pattern of line 143, \<open>{{[^}]*\b(?:\w+\.)?NAME\b[^}]*}}\<close>. The four names consist of
  letters, which \<open>re.escape\<close> leaves as they are.
\<close>

definition placeholder_pattern :: "string \<Rightarrow> regex" where
  "placeholder_pattern name =
     Seq (Lit ''{{'') (Seq (Star (NotChar (CHR ''}''))) (Seq Boundary
       (Seq (Opt (Seq (Plus Word) (Lit ''.''))) (Seq (Lit name) (Seq Boundary
         (Seq (Star (NotChar (CHR ''}''))) (Lit ''}}'')))))))"

text \<open>
  \<open>ensure_placeholders(template_text)\<close>, lines 139 to 148: the first required name without
  a placeholder raises.
\<close>

fun ensure_names :: "string list \<Rightarrow> string \<Rightarrow> error + unit" where
  "ensure_names [] template_text = Inr ()"
| "ensure_names (name # names) template_text =
     (if \<not> search (placeholder_pattern name) template_text
      then Inl (CliError (MissingPlaceholder name))
      else ensure_names names template_text)"

definition ensure_placeholders :: "string \<Rightarrow> error + unit" where
  "ensure_placeholders template_text =
     ensure_names [''product'', ''price'', ''qty'', ''total''] template_text"

subsection \<open>Notions of the statements\<close>

text \<open>The character before the position reached from one after \<open>p\<close> by reading \<open>w\<close>.\<close>

definition adv :: "char option \<Rightarrow> string \<Rightarrow> char option" where
  "adv p w = (if w = [] then p else Some (last w))"

text \<open>
  The text of a comma-separated file with every comma replaced by a semicolon, and the
  same replacement on a character, on the state of the parser and on what the parser and
  the reader return.
\<close>

definition comma_to_semicolon :: "string \<Rightarrow> string" where
  "comma_to_semicolon s = map (\<lambda>c. if c = CHR '','' then CHR '';'' else c) s"

definition sw :: "char \<Rightarrow> char" where
  "sw c = (if c = CHR '','' then CHR '';'' else c)"

definition sw_reader :: "reader \<Rightarrow> reader" where
  "sw_reader r = r\<lparr>row_fields := map (map sw) (row_fields r), field := map sw (field r)\<rparr>"

definition sw_result :: "error + reader \<Rightarrow> error + reader" where
  "sw_result v = (case v of Inl e \<Rightarrow> Inl e | Inr r \<Rightarrow> Inr (sw_reader r))"

definition sw_event :: "error + string list \<Rightarrow> error + string list" where
  "sw_event v = (case v of Inl e \<Rightarrow> Inl e | Inr row \<Rightarrow> Inr (map (map sw) row))"

text \<open>
  The number a finite \<open>Decimal\<close> stands for, as a rational; the number a formatted field of
  an item stands for, read back with \<open>Decimal(text)\<close>; and rounding to \<open>n\<close> fractional digits
  with a half going away from zero, as the glossary of the spec defines half-up rounding.
\<close>

definition tenpow :: "int \<Rightarrow> rat" where
  "tenpow e = (if 0 \<le> e then 10 ^ nat e else 1 / 10 ^ nat (- e))"

definition dec_value :: "decimal \<Rightarrow> rat option" where
  "dec_value d = (case d of
     Finite s c e \<Rightarrow> Some ((if s then - 1 else 1) * of_nat c * tenpow e)
   | _ \<Rightarrow> None)"

definition text_value :: "string \<Rightarrow> rat option" where
  "text_value s = (case Decimal_of_str s of None \<Rightarrow> None | Some d \<Rightarrow> dec_value d)"

definition round_half_up :: "nat \<Rightarrow> rat \<Rightarrow> rat" where
  "round_half_up n x = sgn x * of_int \<lfloor>\<bar>x\<bar> * 10 ^ n + 1 / 2\<rfloor> / 10 ^ n"

text \<open>
  Two notions of the proof about the running total. A total is \<open>blown\<close> when its leading
  digit stands at \<open>10^26\<close> or higher, so that it no longer fits the 28 digits of the context
  at two fractional digits. \<open>item_inv it l\<close> says that the item \<open>it\<close> holds the texts of a
  price of \<open>c\<close> hundredths and of a line total of \<open>l = c * qty\<close> hundredths.
\<close>

definition blown :: "decimal \<Rightarrow> bool" where
  "blown d = (\<exists>c e. d = Finite False c e \<and> 0 < c \<and> - 2 \<le> e \<and> 26 \<le> adjusted c e)"

definition item_inv :: "item \<Rightarrow> nat \<Rightarrow> bool" where
  "item_inv it l = (\<exists>s c. price it = format_2f (Finite s c (- 2))
     \<and> line_total it = format_2f (Finite s l (- 2)) \<and> l = c * nat (qty it) \<and> 0 \<le> qty it
     \<and> ndigits c \<le> 28 \<and> ndigits l \<le> 28 \<and> (s \<longrightarrow> c = 0))"

section \<open>Evaluation rules\<close>

lemma ndigits_numeral:
  "ndigits (numeral k) =
     (if (numeral k :: nat) < 10 then 1 else Suc (ndigits (numeral k div 10)))"
  by (subst ndigits.simps) simp

lemma ndigits_0: "ndigits 0 = 1"
  by (subst ndigits.simps) simp

lemma ndigits_1: "ndigits (Suc 0) = 1"
  by (subst ndigits.simps) simp

lemma str_nat_numeral:
  "str_nat (numeral k) =
     (if (numeral k :: nat) < 10 then [''0123456789'' ! numeral k]
      else str_nat (numeral k div 10) @ [''0123456789'' ! (numeral k mod 10)])"
  by (subst str_nat.simps) simp

lemma str_nat_0: "str_nat 0 = ''0''"
  by (subst str_nat.simps) simp

lemma str_nat_1: "str_nat (Suc 0) = ''1''"
  by (subst str_nat.simps) simp

lemmas char_defs = code_point_def isspace_def isdecimal_def isdigit_char_def isdigit_def
  isupper_char_def lower_char_def lower_def strip_def or_empty_def digit_val_def
  digits_val_def isword_def

lemmas dec_defs = prec_def Emax_def Emin_def Etiny_def Etop_def adjusted_def round_drop_def
  round_to_def rescale_def dec_fix_def check_nans_def quantize_def Decimal_of_int_def
  dec_mul_def normalize_def dec_add_def dec_lt_zero_def parse_exponent_def parse_number_def
  Decimal_of_str_def format_2f_def ndigits_numeral ndigits_0 ndigits_1 str_nat_numeral
  str_nat_0 str_nat_1

lemmas parser_defs = parse_price_def parse_qty_def py_int_def

lemmas csv_defs = csv_reader_def parse_reset_def parse_process_char_def start_field_def
  parse_add_char_def parse_save_field_def line_end_def after_line_end_def field_limit_def
  make_row_def get_def get_or_empty_def detect_delimiter_def process_row_def
  read_csv_rows_def required_def

lemmas regex_defs = search_def placeholder_pattern_def ensure_placeholders_def
  char_match_def isword_opt_def next_char_def

section \<open>The field parsers on particular texts\<close>

text \<open>
  C2. The claim lists FormatError and the rounded value as the only outcomes of the price
  parser. On the text \<open>NaN\<close> the conversion succeeds, and the comparison \<open>value < 0\<close>, which
  stands outside the \<open>try\<close>, raises \<open>decimal.InvalidOperation\<close>: the parser ends with an
  exception that is not a \<open>CliError\<close>.
\<close>

theorem parse_price_NaN_raises_InvalidOperation:
  "parse_price (Some ''NaN'') = Inl InvalidOperation
   \<and> \<not> is_FormatError InvalidOperation"
  by (simp add: char_defs dec_defs parser_defs Let_def)

text \<open>
  C3. The claim lists FormatError and the integer value as the only outcomes of the
  quantity parser. The text made of the one character SUPERSCRIPT TWO passes \<open>isdigit\<close>,
  and \<open>int\<close> raises \<open>ValueError\<close> on it: the parser ends with an exception that is not a
  \<open>CliError\<close>.
\<close>

theorem parse_qty_superscript_raises_ValueError:
  "parse_qty (Some [CHR 0xB2]) = Inl ValueError \<and> \<not> is_FormatError ValueError"
  by (simp add: char_defs dec_defs parser_defs Let_def)

text \<open>
  C10. The price parser accepts exponent notation: on the text \<open>1e2\<close> it returns the number
  with coefficient 10000 and exponent -2, which is written \<open>100.00\<close>.
\<close>

theorem parse_price_accepts_exponent:
  "parse_price (Some ''1e2'') = Inr (Finite False 10000 (- 2))
   \<and> format_2f (Finite False 10000 (- 2)) = ''100.00''"
  by (simp add: char_defs dec_defs parser_defs Let_def)

section \<open>The loader\<close>

lemma rows_loop_blank:
  "list_all (\<lambda>r. r = Inr []) rest \<Longrightarrow> rows_loop fieldnames rest items tot = Inr (items, tot)"
  by (induction rest) auto

lemma rows_loop_items:
  "rows_loop fieldnames rest items tot = Inr (items', tot') \<Longrightarrow> items \<noteq> [] \<Longrightarrow> items' \<noteq> []"
proof (induction fieldnames rest items tot rule: rows_loop.induct)
  case (3 fieldnames row rest items tot)
  then show ?case
    by (auto split: if_splits sum.splits prod.splits)
qed auto

lemma read_csv_rows_Inr_items:
  "read_csv_rows sniff file = Inr (items, tot) \<Longrightarrow> items \<noteq> []"
  unfolding read_csv_rows_def
  by (auto simp: Let_def split: option.splits if_splits sum.splits list.splits prod.splits)

lemma fold_restval_other:
  "k \<notin> set ks \<Longrightarrow> fold (\<lambda>k m. m(k \<mapsto> None)) ks m k = m k"
  by (induction ks arbitrary: m) auto

lemma fold_restval:
  "k \<in> set ks \<Longrightarrow> fold (\<lambda>k m. m(k \<mapsto> None)) ks m k = Some None"
proof (induction ks arbitrary: m)
  case Nil
  then show ?case by simp
next
  case (Cons a ks)
  show ?case
  proof (cases "k \<in> set ks")
    case True
    then show ?thesis using Cons.IH by simp
  next
    case False
    with Cons.prems have "k = a" by simp
    with False have "fold (\<lambda>k m. m(k \<mapsto> None)) ks (m(a \<mapsto> None)) k = Some None"
      using fold_restval_other [of k ks "m(a \<mapsto> None)"] by simp
    then show ?thesis by (simp only: fold.simps o_apply)
  qed
qed

lemma make_row_short:
  "k \<in> set (drop (length row) fieldnames) \<Longrightarrow> make_row fieldnames row k = Some None"
  unfolding make_row_def by (rule fold_restval)

lemma sorted_required:
  assumes "missing \<subseteq> required"
  shows "sorted_list_of_set missing = filter (\<lambda>n. n \<in> missing) [''price'', ''product'', ''qty'']"
proof -
  have fin: "finite missing" using assms by (auto simp: required_def intro: finite_subset)
  have "sorted [''price'', ''product'', ''qty'']" by simp
  then have s: "sorted (filter (\<lambda>n. n \<in> missing) [''price'', ''product'', ''qty''])"
    by (rule sorted_wrt_filter)
  have d: "distinct (filter (\<lambda>n. n \<in> missing) [''price'', ''product'', ''qty''])"
    by (rule distinct_filter) simp
  have e: "set (filter (\<lambda>n. n \<in> missing) [''price'', ''product'', ''qty'']) = missing"
    using assms by (auto simp: required_def)
  show ?thesis
    using s d e fin by (metis sorted_list_of_set.idem_if_sorted_distinct)
qed


text \<open>
  C4. The claim says a header in another letter case (\<open>Product,Price,Qty\<close>) loads like the
  lower-case one. The header check lowers the names, but the rows of the \<open>DictReader\<close> keep
  the keys as the header spells them, and the loop looks up \<open>"product"\<close>: for every sniffer
  that detects the comma, the first data row ends the load with \<open>EmptyProduct\<close>.
\<close>

theorem mixed_case_header_fails_on_first_row:
  assumes "sniff ''Product,Price,Qty\<newline>Apple,1.50,2'' '',;'' = Some (CHR '','')"
  shows "read_csv_rows sniff (Some ''Product,Price,Qty\<newline>Apple,1.50,2'')
         = Inl (CliError EmptyProduct)"
  using assms by (simp add: char_defs csv_defs Let_def)

theorem mixed_case_header_fails_on_first_row_witness:
  "(\<lambda>sample delimiters. Some (CHR '','')) ''Product,Price,Qty\<newline>Apple,1.50,2'' '',;''
     = Some (CHR '','')
   \<and> read_csv_rows (\<lambda>sample delimiters. Some (CHR '','')) 
         (Some ''Product,Price,Qty\<newline>Apple,1.50,2'') = Inl (CliError EmptyProduct)"
  using mixed_case_header_fails_on_first_row [of "\<lambda>sample delimiters. Some (CHR '','')"]
  by simp

text \<open>
  C6. When the file is not blank, the delimiter is detected and the header row is not
  empty (steps 1 to 3 of the loader and the existence of the header), a header that lacks
  required names, compared after \<open>strip\<close> and \<open>lower\<close>, ends the load with \<open>MissingColumns\<close>;
  the message joins with \<open>", "\<close> exactly the missing names, each once, in ascending order
  of the strings. A CSV missing only \<open>qty\<close> fails naming \<open>qty\<close>.
\<close>

theorem missing_columns_reported:
  assumes "strip (translate_newlines content) \<noteq> []"
    and "detect_delimiter sniff (translate_newlines content) = Inr delimiter"
    and "csv_reader delimiter content = Inr fieldnames # rest"
    and "fieldnames \<noteq> []"
    and "missing = required - set (map (\<lambda>h. lower (strip h)) fieldnames)"
    and "missing \<noteq> {}"
  shows "\<exists>names. read_csv_rows sniff (Some content)
            = Inl (CliError (MissingColumns (join '', '' names)))
          \<and> set names = missing \<and> sorted names \<and> distinct names"
proof -
  have sub: "missing \<subseteq> required" using assms(5) by auto
  then have fin: "finite missing"
    by (auto simp: required_def intro: finite_subset)
  have "read_csv_rows sniff (Some content)
      = Inl (CliError (MissingColumns (join '', '' (sorted_list_of_set missing))))"
    using assms by (simp add: read_csv_rows_def Let_def)
  moreover have "set (sorted_list_of_set missing) = missing"
    using fin by simp
  ultimately show ?thesis
    by (intro exI [of _ "sorted_list_of_set missing"]) simp
qed

theorem missing_columns_reported_witness:
  "(\<exists>names. read_csv_rows (\<lambda>sample delimiters. Some (CHR '','')) 
        (Some ''product,price\<newline>Apple,1.50'')
            = Inl (CliError (MissingColumns (join '', '' names)))
          \<and> set names = {''qty''} \<and> sorted names \<and> distinct names)
   \<and> read_csv_rows (\<lambda>sample delimiters. Some (CHR '','')) 
        (Some ''product,price\<newline>Apple,1.50'') = Inl (CliError (MissingColumns ''qty''))"
proof
  have m: "{''qty''} = required - set (map (\<lambda>h. lower (strip h)) [''product'', ''price''])"
    by (auto simp: required_def char_defs)
  show "\<exists>names. read_csv_rows (\<lambda>sample delimiters. Some (CHR '','')) 
        (Some ''product,price\<newline>Apple,1.50'')
            = Inl (CliError (MissingColumns (join '', '' names)))
          \<and> set names = {''qty''} \<and> sorted names \<and> distinct names"
    by (rule missing_columns_reported [where delimiter = "CHR '',''"
          and fieldnames = "[''product'', ''price'']" and rest = "[Inr [''Apple'', ''1.50'']]"])
       (simp_all add: m [symmetric] char_defs csv_defs)
  show "read_csv_rows (\<lambda>sample delimiters. Some (CHR '','')) 
        (Some ''product,price\<newline>Apple,1.50'') = Inl (CliError (MissingColumns ''qty''))"
    by (simp add: char_defs csv_defs Let_def sorted_required)
qed


text \<open>
  C7. A load that succeeds returns at least one item; and when the file is not blank, the
  delimiter is detected and the header row holds the three required names, a file with no
  data row (nothing after the header but blank lines, which the \<open>DictReader\<close> skips) ends
  the load with \<open>NoData\<close>.
\<close>

theorem items_never_empty:
  "(read_csv_rows sniff csv_file = Inr (items, tot) \<longrightarrow> items \<noteq> [])
   \<and> (strip (translate_newlines content) \<noteq> []
        \<and> detect_delimiter sniff (translate_newlines content) = Inr delimiter
        \<and> csv_reader delimiter content = Inr fieldnames # rest
        \<and> fieldnames \<noteq> []
        \<and> required \<subseteq> set (map (\<lambda>h. lower (strip h)) fieldnames)
        \<and> list_all (\<lambda>r. r = Inr []) rest
      \<longrightarrow> read_csv_rows sniff (Some content) = Inl (CliError NoData))"
proof (intro conjI impI)
  assume "read_csv_rows sniff csv_file = Inr (items, tot)"
  then show "items \<noteq> []" by (rule read_csv_rows_Inr_items)
next
  assume a: "strip (translate_newlines content) \<noteq> []
        \<and> detect_delimiter sniff (translate_newlines content) = Inr delimiter
        \<and> csv_reader delimiter content = Inr fieldnames # rest
        \<and> fieldnames \<noteq> []
        \<and> required \<subseteq> set (map (\<lambda>h. lower (strip h)) fieldnames)
        \<and> list_all (\<lambda>r. r = Inr []) rest"
  then have "rows_loop fieldnames rest [] (Finite False 0 (- 2)) = Inr ([], Finite False 0 (- 2))"
    by (simp add: rows_loop_blank)
  moreover have "required - set (map (\<lambda>h. lower (strip h)) fieldnames) = {}"
    using a by auto
  ultimately show "read_csv_rows sniff (Some content) = Inl (CliError NoData)"
    using a by (simp add: read_csv_rows_def Let_def)
qed

theorem items_never_empty_witness:
  "read_csv_rows (\<lambda>sample delimiters. Some (CHR '','')) (Some ''product,price,qty\<newline>Apple,1.50,2'')
     = Inr ([\<lparr>product = ''Apple'', price = ''1.50'', qty = 2, line_total = ''3.00''\<rparr>],
            Finite False 300 (- 2))
   \<and> [\<lparr>product = ''Apple'', price = ''1.50'', qty = 2, line_total = ''3.00''\<rparr>] \<noteq> []
   \<and> read_csv_rows (\<lambda>sample delimiters. Some (CHR '','')) (Some ''product,price,qty\<newline>\<newline>'')
     = Inl (CliError NoData)"
proof -
  have l: "read_csv_rows (\<lambda>sample delimiters. Some (CHR '','')) (Some ''product,price,qty\<newline>Apple,1.50,2'')
     = Inr ([\<lparr>product = ''Apple'', price = ''1.50'', qty = 2, line_total = ''3.00''\<rparr>],
            Finite False 300 (- 2))"
    by (simp add: char_defs dec_defs parser_defs csv_defs Let_def)
  have h: "strip (translate_newlines ''product,price,qty\<newline>\<newline>'') \<noteq> []
        \<and> detect_delimiter (\<lambda>sample delimiters. Some (CHR '','')) (translate_newlines ''product,price,qty\<newline>\<newline>'') = Inr (CHR '','')
        \<and> csv_reader (CHR '','') ''product,price,qty\<newline>\<newline>'' = Inr [''product'', ''price'', ''qty''] # [Inr []]
        \<and> [''product'', ''price'', ''qty''] \<noteq> []
        \<and> required \<subseteq> set (map (\<lambda>h. lower (strip h)) [''product'', ''price'', ''qty''])
        \<and> list_all (\<lambda>r. r = Inr []) [Inr []]"
    by (simp add: char_defs csv_defs)
  show ?thesis
    using items_never_empty [where sniff = "\<lambda>sample delimiters. Some (CHR '','')"
        and csv_file = "Some ''product,price,qty\<newline>Apple,1.50,2''"
        and items = "[\<lparr>product = ''Apple'', price = ''1.50'', qty = 2, line_total = ''3.00''\<rparr>]"
        and tot = "Finite False 300 (- 2)" and content = "''product,price,qty\<newline>\<newline>''"
        and delimiter = "CHR '',''" and fieldnames = "[''product'', ''price'', ''qty'']"
        and rest = "[Inr []]"] l h
    by blast
qed

text \<open>
  Rows shorter than the header. Every field name past the end of the row is bound to
  \<open>None\<close>; both field parsers turn \<open>None\<close> into the empty text and raise their
  "not specified" \<open>CliError\<close>. When the loop reaches a row with a product whose price cell
  is absent it ends with \<open>PriceMissing\<close>, and when the price cell is present and
  \<open>parse_price\<close> returns and the quantity cell is absent it ends with \<open>QtyMissing\<close>.
\<close>

lemma absent_cells_not_specified:
  "parse_price None = Inl (CliError PriceMissing)
   \<and> parse_qty None = Inl (CliError QtyMissing)
   \<and> (k \<in> set (drop (length row) fieldnames) \<longrightarrow> make_row fieldnames row k = Some None)
   \<and> (strip (or_empty (get (make_row fieldnames row) ''product'')) \<noteq> []
        \<and> ''price'' \<in> set (drop (length row) fieldnames)
      \<longrightarrow> rows_loop fieldnames (Inr row # rest) items tot = Inl (CliError PriceMissing))
   \<and> (strip (or_empty (get (make_row fieldnames row) ''product'')) \<noteq> []
        \<and> parse_price (get_or_empty (make_row fieldnames row) ''price'') = Inr p
        \<and> ''qty'' \<in> set (drop (length row) fieldnames)
      \<longrightarrow> rows_loop fieldnames (Inr row # rest) items tot = Inl (CliError QtyMissing))"
proof (intro conjI impI)
  show pn: "parse_price None = Inl (CliError PriceMissing)"
    by (simp add: parse_price_def or_empty_def strip_def)
  show qn: "parse_qty None = Inl (CliError QtyMissing)"
    by (simp add: parse_qty_def or_empty_def strip_def)
  show "make_row fieldnames row k = Some None" if "k \<in> set (drop (length row) fieldnames)"
    using that by (rule make_row_short)
  have nonempty: "row \<noteq> []"
    if "strip (or_empty (get (make_row fieldnames row) ''product'')) \<noteq> []"
  proof
    assume "row = []"
    then have "make_row fieldnames row ''product'' = None
        \<or> make_row fieldnames row ''product'' = Some None"
      using make_row_short [of "''product''" row fieldnames]
      by (cases "''product'' \<in> set fieldnames") (simp_all add: make_row_def fold_restval_other)
    with that show False
      by (auto simp: get_def or_empty_def strip_def)
  qed
  show "rows_loop fieldnames (Inr row # rest) items tot = Inl (CliError PriceMissing)"
    if a: "strip (or_empty (get (make_row fieldnames row) ''product'')) \<noteq> []
        \<and> ''price'' \<in> set (drop (length row) fieldnames)"
  proof -
    have "get_or_empty (make_row fieldnames row) ''price'' = None"
      using a by (simp add: get_or_empty_def make_row_short)
    then have "process_row (make_row fieldnames row) = Inl (CliError PriceMissing)"
      using a pn by (simp add: process_row_def Let_def)
    then show ?thesis using nonempty a by simp
  qed
  show "rows_loop fieldnames (Inr row # rest) items tot = Inl (CliError QtyMissing)"
    if a: "strip (or_empty (get (make_row fieldnames row) ''product'')) \<noteq> []
        \<and> parse_price (get_or_empty (make_row fieldnames row) ''price'') = Inr p
        \<and> ''qty'' \<in> set (drop (length row) fieldnames)"
  proof -
    have "get_or_empty (make_row fieldnames row) ''qty'' = None"
      using a by (simp add: get_or_empty_def make_row_short)
    then have "process_row (make_row fieldnames row) = Inl (CliError QtyMissing)"
      using a qn by (simp add: process_row_def Let_def)
    then show ?thesis using nonempty a by simp
  qed
qed

lemma absent_cells_not_specified_example:
  "make_row [''product'', ''price'', ''qty''] [''Apple''] ''price'' = Some None
   \<and> rows_loop [''product'', ''price'', ''qty''] [Inr [''Apple'']] [] (Finite False 0 (- 2))
       = Inl (CliError PriceMissing)
   \<and> rows_loop [''product'', ''price'', ''qty''] [Inr [''Apple'', ''1.50'']] []
         (Finite False 0 (- 2))
       = Inl (CliError QtyMissing)"
proof -
  have a: "strip (or_empty (get (make_row [''product'', ''price'', ''qty''] [''Apple''])
      ''product'')) \<noteq> []"
    by (simp add: char_defs csv_defs)
  have b: "strip (or_empty (get (make_row [''product'', ''price'', ''qty'']
      [''Apple'', ''1.50'']) ''product'')) \<noteq> []"
    by (simp add: char_defs csv_defs)
  have c: "parse_price (get_or_empty (make_row [''product'', ''price'', ''qty'']
      [''Apple'', ''1.50'']) ''price'') = Inr (Finite False 150 (- 2))"
    by (simp add: char_defs dec_defs parser_defs csv_defs Let_def)
  show ?thesis
    using absent_cells_not_specified [where k = "''price''" and row = "[''Apple'']"
        and fieldnames = "[''product'', ''price'', ''qty'']" and rest = "[]" and items = "[]"
        and tot = "Finite False 0 (- 2)"]
      absent_cells_not_specified [where row = "[''Apple'', ''1.50'']"
        and fieldnames = "[''product'', ''price'', ''qty'']" and rest = "[]" and items = "[]"
        and tot = "Finite False 0 (- 2)" and p = "Finite False 150 (- 2)"]
      a b c
    by simp
qed

text \<open>
  C9. The claim says that on a row with fewer fields than the header the loader never ends
  with anything but the domain error. The loop parses the price cell before it reads the
  quantity cell, and \<open>parse_price\<close> compares and quantizes outside its \<open>try\<close>: on the
  file whose only data row is \<open>"Apple",NaN\<close> the row has two fields under a header of
  three, the \<open>qty\<close> cell is \<open>None\<close>, and for every sniffer that detects the comma the load
  ends with \<open>decimal.InvalidOperation\<close>, which is not a \<open>CliError\<close>.
\<close>

theorem short_row_NaN_price_raises_InvalidOperation:
  assumes "sniff (''product,price,qty\<newline>'' @ CHR 0x22 # ''Apple'' @ CHR 0x22 # '',NaN'') '',;''
           = Some (CHR '','')"
  shows "csv_reader (CHR '','')
             (''product,price,qty\<newline>'' @ CHR 0x22 # ''Apple'' @ CHR 0x22 # '',NaN'')
           = [Inr [''product'', ''price'', ''qty''], Inr [''Apple'', ''NaN'']]
         \<and> make_row [''product'', ''price'', ''qty''] [''Apple'', ''NaN''] ''qty'' = Some None
         \<and> read_csv_rows sniff
             (Some (''product,price,qty\<newline>'' @ CHR 0x22 # ''Apple'' @ CHR 0x22 # '',NaN''))
           = Inl InvalidOperation
         \<and> \<not> is_FormatError InvalidOperation"
  using assms by (simp add: char_defs dec_defs parser_defs csv_defs Let_def)

theorem short_row_NaN_price_raises_InvalidOperation_witness:
  "(\<lambda>sample delimiters. Some (CHR '',''))
       (''product,price,qty\<newline>'' @ CHR 0x22 # ''Apple'' @ CHR 0x22 # '',NaN'') '',;''
     = Some (CHR '','')
   \<and> read_csv_rows (\<lambda>sample delimiters. Some (CHR '',''))
         (Some (''product,price,qty\<newline>'' @ CHR 0x22 # ''Apple'' @ CHR 0x22 # '',NaN''))
     = Inl InvalidOperation"
  using short_row_NaN_price_raises_InvalidOperation [of "\<lambda>sample delimiters. Some (CHR '','')"]
  by simp

section \<open>The placeholder check\<close>

lemma adv_Nil [simp]: "adv p [] = p"
  by (simp add: adv_def)

lemma adv_Cons [simp]: "adv p (x # w) = adv (Some x) w"
  by (simp add: adv_def)

lemma adv_append [simp]: "adv (adv p a) b = adv p (a @ b)"
  by (simp add: adv_def)

lemma lit_match_iff:
  "q \<in> set (lit_match w (p, s)) \<longleftrightarrow> (\<exists>s'. s = w @ s' \<and> q = (adv p w, s'))"
proof (induction w arbitrary: p s)
  case Nil
  then show ?case by auto
next
  case (Cons c w)
  show ?case
  proof (cases s)
    case Nil
    then show ?thesis by simp
  next
    case (Cons x xs)
    then show ?thesis using Cons.IH [of "Some x" xs] by auto
  qed
qed

lemma iter_char_iff:
  "q \<in> set (iter (char_match Q) n (p, s))
     \<longleftrightarrow> (\<exists>a s'. s = a @ s' \<and> length a \<le> n \<and> list_all Q a \<and> q = (adv p a, s'))"
proof (induction n arbitrary: p s)
  case 0
  then show ?case by auto
next
  case (Suc n)
  show ?case
  proof (cases s)
    case Nil
    then show ?thesis by (auto simp: char_match_def)
  next
    case (Cons x xs)
    show ?thesis
    proof (cases "Q x")
      case False
      have "(\<exists>a s'. s = a @ s' \<and> length a \<le> Suc n \<and> list_all Q a \<and> q = (adv p a, s'))
          \<longleftrightarrow> q = (p, s)"
      proof
        assume "\<exists>a s'. s = a @ s' \<and> length a \<le> Suc n \<and> list_all Q a \<and> q = (adv p a, s')"
        then obtain a s' where a: "s = a @ s'" "list_all Q a" "q = (adv p a, s')" by blast
        with False Cons have "a = []" by (cases a) auto
        with a show "q = (p, s)" by simp
      next
        assume "q = (p, s)"
        then show "\<exists>a s'. s = a @ s' \<and> length a \<le> Suc n \<and> list_all Q a \<and> q = (adv p a, s')"
          by (intro exI [of _ "[]"] exI [of _ s]) simp
      qed
      with False Cons show ?thesis by (simp add: char_match_def)
    next
      case True
      have "(\<exists>a s'. s = a @ s' \<and> length a \<le> Suc n \<and> list_all Q a \<and> q = (adv p a, s'))
          \<longleftrightarrow> q = (p, s)
            \<or> (\<exists>a s'. xs = a @ s' \<and> length a \<le> n \<and> list_all Q a \<and> q = (adv (Some x) a, s'))"
        (is "?L \<longleftrightarrow> ?R")
      proof
        assume ?L
        then obtain a s' where a: "s = a @ s'" "length a \<le> Suc n" "list_all Q a"
          "q = (adv p a, s')" by blast
        show ?R
        proof (cases a)
          case Nil
          with a show ?thesis by simp
        next
          case (Cons y ys)
          with a \<open>s = x # xs\<close> have "xs = ys @ s'" "length ys \<le> n" "list_all Q ys"
            "q = (adv (Some x) ys, s')" by auto
          then show ?thesis by blast
        qed
      next
        assume ?R
        then show ?L
        proof
          assume "q = (p, s)"
          then show ?L by (intro exI [of _ "[]"] exI [of _ s]) simp
        next
          assume "\<exists>a s'. xs = a @ s' \<and> length a \<le> n \<and> list_all Q a \<and> q = (adv (Some x) a, s')"
          then obtain a s' where "xs = a @ s'" "length a \<le> n" "list_all Q a"
            "q = (adv (Some x) a, s')" by blast
          with True Cons show ?L
            by (intro exI [of _ "x # a"] exI [of _ s']) simp
        qed
      qed
      with True Cons Suc.IH [of "Some x" xs] show ?thesis
        by (simp add: char_match_def)
    qed
  qed
qed

lemma star_char_iff:
  "q \<in> set (iter (char_match Q) (length s) (p, s))
     \<longleftrightarrow> (\<exists>a s'. s = a @ s' \<and> list_all Q a \<and> q = (adv p a, s'))"
  unfolding iter_char_iff by auto

lemma positions_iff:
  "q \<in> set (positions prev t) \<longleftrightarrow> (\<exists>pre s. t = pre @ s \<and> q = (adv prev pre, s))"
proof (induction t arbitrary: prev)
  case Nil
  then show ?case by auto
next
  case (Cons c t)
  show ?case
  proof
    assume "q \<in> set (positions prev (c # t))"
    then consider "q = (prev, c # t)" | "q \<in> set (positions (Some c) t)" by auto
    then show "\<exists>pre s. c # t = pre @ s \<and> q = (adv prev pre, s)"
    proof cases
      case 1
      then show ?thesis by (intro exI [of _ "[]"] exI [of _ "c # t"]) simp
    next
      case 2
      then obtain pre s where "t = pre @ s" "q = (adv (Some c) pre, s)"
        using Cons.IH by blast
      then show ?thesis by (intro exI [of _ "c # pre"] exI [of _ s]) simp
    qed
  next
    assume "\<exists>pre s. c # t = pre @ s \<and> q = (adv prev pre, s)"
    then obtain pre s where a: "c # t = pre @ s" "q = (adv prev pre, s)" by blast
    show "q \<in> set (positions prev (c # t))"
    proof (cases pre)
      case Nil
      with a have "q = (prev, c # t)" by simp
      then show ?thesis by simp
    next
      case (Cons y ys)
      with a have "t = ys @ s" "q = (adv (Some c) ys, s)" by auto
      then have "q \<in> set (positions (Some c) t)" using Cons.IH by blast
      then show ?thesis by simp
    qed
  qed
qed


lemma isword_simps [simp]:
  "\<not> isword (CHR ''{'')" "\<not> isword (CHR ''}'')" "\<not> isword (CHR ''.'')"
  by (simp_all add: isword_def code_point_def)

lemma seq_iff:
  "q \<in> set (matches (Seq a b) p) \<longleftrightarrow> (\<exists>m \<in> set (matches a p). q \<in> set (matches b m))"
  by auto

lemma star_notchar_iff:
  "q \<in> set (matches (Star (NotChar c)) (p, s))
     \<longleftrightarrow> (\<exists>a s'. s = a @ s' \<and> c \<notin> set a \<and> q = (adv p a, s'))"
proof -
  have "list_all (\<lambda>x. x \<noteq> c) a \<longleftrightarrow> c \<notin> set a" for a
    by (induction a) auto
  then show ?thesis
    using star_char_iff [of q "\<lambda>x. x \<noteq> c" s p] by simp
qed

lemma plus_word_iff:
  "q \<in> set (matches (Plus Word) (p, s))
     \<longleftrightarrow> (\<exists>w s'. w \<noteq> [] \<and> s = w @ s' \<and> list_all isword w \<and> q = (adv p w, s'))"
proof (cases s)
  case Nil
  then show ?thesis by (auto simp: char_match_def)
next
  case (Cons x xs)
  show ?thesis
  proof (cases "isword x")
    case False
    have "\<not> (\<exists>w s'. w \<noteq> [] \<and> s = w @ s' \<and> list_all isword w \<and> q = (adv p w, s'))"
    proof
      assume "\<exists>w s'. w \<noteq> [] \<and> s = w @ s' \<and> list_all isword w \<and> q = (adv p w, s')"
      then obtain w s' where "w \<noteq> []" "s = w @ s'" "list_all isword w" by blast
      with False Cons show False by (cases w) auto
    qed
    with False Cons show ?thesis by (simp add: char_match_def)
  next
    case True
    have "(\<exists>w s'. w \<noteq> [] \<and> s = w @ s' \<and> list_all isword w \<and> q = (adv p w, s'))
        \<longleftrightarrow> (\<exists>a s'. xs = a @ s' \<and> list_all isword a \<and> q = (adv (Some x) a, s'))"
      (is "?L \<longleftrightarrow> ?R")
    proof
      assume ?L
      then obtain w s' where w: "w \<noteq> []" "s = w @ s'" "list_all isword w" "q = (adv p w, s')"
        by blast
      then obtain y ys where "w = y # ys" by (cases w) auto
      with w Cons have "xs = ys @ s'" "list_all isword ys" "q = (adv (Some x) ys, s')"
        by auto
      then show ?R by blast
    next
      assume ?R
      then obtain a s' where "xs = a @ s'" "list_all isword a" "q = (adv (Some x) a, s')"
        by blast
      with True Cons show ?L
        by (intro exI [of _ "x # a"] exI [of _ s']) simp
    qed
    with True Cons show ?thesis
      using star_char_iff [of q isword xs "Some x"] by (simp add: char_match_def)
  qed
qed


lemma ex_matches_iff: "matches r p \<noteq> [] \<longleftrightarrow> (\<exists>q. q \<in> set (matches r p))"
  by (cases "matches r p") auto

lemma tail_iff:
  assumes "isword c"
  shows "(\<exists>q. q \<in> set (matches (Seq Boundary (Seq (Star (NotChar (CHR ''}''))) (Lit ''}}'')))
            (Some c, s)))
     \<longleftrightarrow> (\<exists>b post. s = b @ ''}}'' @ post \<and> CHR ''}'' \<notin> set b \<and> (b = [] \<or> \<not> isword (hd b)))"
    (is "?L \<longleftrightarrow> ?R")
proof
  assume ?L
  then obtain q where q: "q \<in> set (matches (Seq Boundary (Seq (Star (NotChar (CHR ''}'')))
      (Lit ''}}''))) (Some c, s))" by blast
  then have bd: "\<not> isword_opt (next_char s)"
    and q': "q \<in> set (matches (Seq (Star (NotChar (CHR ''}''))) (Lit ''}}'')) (Some c, s))"
    using assms by (auto simp: isword_opt_def split: if_splits)
  from q' obtain m where m: "m \<in> set (matches (Star (NotChar (CHR ''}''))) (Some c, s))"
    and qm: "q \<in> set (matches (Lit ''}}'') m)"
    unfolding seq_iff by blast
  from m obtain b s' where b: "s = b @ s'" "CHR ''}'' \<notin> set b" "m = (adv (Some c) b, s')"
    unfolding star_notchar_iff by blast
  from qm b obtain post where post: "s' = ''}}'' @ post"
    using lit_match_iff [of q "''}}''" "adv (Some c) b" s'] by auto
  have "b = [] \<or> \<not> isword (hd b)"
    using bd b by (cases b) (auto simp: next_char_def isword_opt_def)
  with b post show ?R by blast
next
  assume ?R
  then obtain b post where b: "s = b @ ''}}'' @ post" "CHR ''}'' \<notin> set b"
    "b = [] \<or> \<not> isword (hd b)" by blast
  have bd: "\<not> isword_opt (next_char s)"
    using b by (cases b) (auto simp: next_char_def isword_opt_def)
  have m: "(adv (Some c) b, ''}}'' @ post) \<in> set (matches (Star (NotChar (CHR ''}''))) (Some c, s))"
    unfolding star_notchar_iff using b by blast
  have "(adv (adv (Some c) b) ''}}'', post) \<in> set (matches (Lit ''}}'') (adv (Some c) b, ''}}'' @ post))"
    using lit_match_iff [of _ "''}}''" "adv (Some c) b" "''}}'' @ post"] by simp
  with m have "(adv (adv (Some c) b) ''}}'', post)
      \<in> set (matches (Seq (Star (NotChar (CHR ''}''))) (Lit ''}}'')) (Some c, s))"
    unfolding seq_iff by blast
  then have "(adv (adv (Some c) b) ''}}'', post)
      \<in> set (matches (Seq Boundary (Seq (Star (NotChar (CHR ''}''))) (Lit ''}}''))) (Some c, s))"
    using bd assms by (simp add: isword_opt_def)
  then show ?L by blast
qed

lemma name_iff:
  assumes "name \<noteq> []" "isword (last name)"
  shows "(\<exists>q. q \<in> set (matches (Seq (Lit name)
            (Seq Boundary (Seq (Star (NotChar (CHR ''}''))) (Lit ''}}'')))) (p, s)))
     \<longleftrightarrow> (\<exists>b post. s = name @ b @ ''}}'' @ post \<and> CHR ''}'' \<notin> set b
            \<and> (b = [] \<or> \<not> isword (hd b)))"
    (is "?L \<longleftrightarrow> ?R")
proof -
  have adv: "adv p name = Some (last name)" using assms by (simp add: adv_def)
  have "?L \<longleftrightarrow> (\<exists>s'. s = name @ s' \<and> (\<exists>q. q \<in> set (matches
      (Seq Boundary (Seq (Star (NotChar (CHR ''}''))) (Lit ''}}''))) (Some (last name), s'))))"
    unfolding seq_iff [of _ "Lit name"] using lit_match_iff [of _ name p s] adv
    by (simp del: matches.simps(5) add: Bex_def) blast
  also have "\<dots> \<longleftrightarrow> ?R"
    unfolding tail_iff [OF assms(2)] by blast
  finally show ?thesis .
qed


lemma group_iff:
  "m \<in> set (matches (Seq (Plus Word) (Lit ''.'')) (p, s))
     \<longleftrightarrow> (\<exists>w s'. w \<noteq> [] \<and> list_all isword w \<and> s = w @ ''.'' @ s' \<and> m = (Some (CHR ''.''), s'))"
    (is "?L \<longleftrightarrow> ?R")
proof
  assume ?L
  then obtain k where k: "k \<in> set (matches (Plus Word) (p, s))"
    and mk: "m \<in> set (matches (Lit ''.'') k)"
    unfolding seq_iff by blast
  from k obtain w s1 where w: "w \<noteq> []" "s = w @ s1" "list_all isword w" "k = (adv p w, s1)"
    unfolding plus_word_iff by blast
  from mk w obtain s' where "s1 = ''.'' @ s'" "m = (adv (adv p w) ''.'', s')"
    using lit_match_iff [of m "''.''" "adv p w" s1] by auto
  with w show ?R by auto
next
  assume ?R
  then obtain w s' where w: "w \<noteq> []" "list_all isword w" "s = w @ ''.'' @ s'"
    "m = (Some (CHR ''.''), s')" by blast
  then have k: "(adv p w, ''.'' @ s') \<in> set (matches (Plus Word) (p, s))"
    unfolding plus_word_iff by blast
  have "m \<in> set (matches (Lit ''.'') (adv p w, ''.'' @ s'))"
    using lit_match_iff [of m "''.''" "adv p w" "''.'' @ s'"] w by simp
  with k show ?L unfolding seq_iff by blast
qed

lemma pattern_iff:
  assumes "name \<noteq> []" "isword (hd name)" "isword (last name)"
  shows "(\<exists>q. q \<in> set (matches (placeholder_pattern name) (p, s)))
     \<longleftrightarrow> (\<exists>a b post. s = ''{{'' @ a @ name @ b @ ''}}'' @ post
            \<and> CHR ''}'' \<notin> set a \<and> CHR ''}'' \<notin> set b
            \<and> (a = [] \<or> \<not> isword (last a)) \<and> (b = [] \<or> \<not> isword (hd b)))"
    (is "?L \<longleftrightarrow> ?R")
proof -
  define TL where "TL = Seq Boundary (Seq (Star (NotChar (CHR ''}''))) (Lit ''}}''))"
  define N where "N = Seq (Lit name) TL"
  define G where "G = Seq (Plus Word) (Lit ''.'')"
  define B where "B = Seq Boundary (Seq (Opt G) N)"
  define S where "S = Seq (Star (NotChar (CHR ''}''))) B"
  have P: "placeholder_pattern name = Seq (Lit ''{{'') S"
    by (simp add: placeholder_pattern_def S_def B_def G_def N_def TL_def)
  define NR where "NR = (\<lambda>s. \<exists>b post. s = name @ b @ ''}}'' @ post \<and> CHR ''}'' \<notin> set b
            \<and> (b = [] \<or> \<not> isword (hd b)))"
  have N: "(\<exists>q. q \<in> set (matches N (p', s'))) \<longleftrightarrow> NR s'" for p' s'
    unfolding N_def TL_def NR_def by (rule name_iff [OF assms(1) assms(3)])
  have NRhd: "next_char s' = Some (hd name)" if "NR s'" for s'
    using that assms(1) unfolding NR_def by (cases name) (auto simp: next_char_def)
  have O: "(\<exists>q. q \<in> set (matches (Seq (Opt G) N) (p', s')))
      \<longleftrightarrow> NR s' \<or> (\<exists>w s2. w \<noteq> [] \<and> list_all isword w \<and> s' = w @ ''.'' @ s2 \<and> NR s2)"
    (is "?OL \<longleftrightarrow> ?OR") for p' s'
  proof
    assume ?OL
    then obtain q m where m: "m \<in> set (matches (Opt G) (p', s'))"
      and q: "q \<in> set (matches N m)"
      unfolding seq_iff by blast
    from m consider "m = (p', s')" | "m \<in> set (matches G (p', s'))" by auto
    then show ?OR
    proof cases
      case 1
      with q N show ?thesis by blast
    next
      case 2
      then obtain w s2 where "w \<noteq> []" "list_all isword w" "s' = w @ ''.'' @ s2"
        "m = (Some (CHR ''.''), s2)"
        unfolding G_def group_iff by blast
      with q N show ?thesis by blast
    qed
  next
    assume ?OR
    then show ?OL
    proof
      assume "NR s'"
      then obtain q where "q \<in> set (matches N (p', s'))" using N by blast
      moreover have "(p', s') \<in> set (matches (Opt G) (p', s'))" by simp
      ultimately show ?OL unfolding seq_iff by blast
    next
      assume "\<exists>w s2. w \<noteq> [] \<and> list_all isword w \<and> s' = w @ ''.'' @ s2 \<and> NR s2"
      then obtain w s2 where w: "w \<noteq> []" "list_all isword w" "s' = w @ ''.'' @ s2" "NR s2"
        by blast
      then obtain q where "q \<in> set (matches N (Some (CHR ''.''), s2))" using N by blast
      moreover have "(Some (CHR ''.''), s2) \<in> set (matches G (p', s'))"
        unfolding G_def group_iff using w by blast
      then have "(Some (CHR ''.''), s2) \<in> set (matches (Opt G) (p', s'))" by simp
      ultimately show ?OL unfolding seq_iff by blast
    qed
  qed
  have Bd: "(\<exists>q. q \<in> set (matches B (p', s')))
      \<longleftrightarrow> isword_opt p' \<noteq> isword_opt (next_char s')
          \<and> (NR s' \<or> (\<exists>w s2. w \<noteq> [] \<and> list_all isword w \<and> s' = w @ ''.'' @ s2 \<and> NR s2))"
    for p' s'
    unfolding B_def seq_iff [of _ Boundary] using O [of p' s']
    by (auto simp del: matches.simps(5))
  have L: "?L \<longleftrightarrow> (\<exists>s1 a s2. s = ''{{'' @ s1 \<and> s1 = a @ s2 \<and> CHR ''}'' \<notin> set a
      \<and> (\<exists>q. q \<in> set (matches B (adv (Some (CHR ''{'')) a, s2))))"
    (is "_ \<longleftrightarrow> ?M")
  proof
    assume ?L
    then obtain q m where m: "m \<in> set (matches (Lit ''{{'') (p, s))"
      and q: "q \<in> set (matches S m)"
      unfolding P seq_iff by blast
    from m obtain s1 where s1: "s = ''{{'' @ s1" "m = (Some (CHR ''{''), s1)"
      using lit_match_iff [of m "''{{''" p s] by auto
    from q s1 obtain k where k: "k \<in> set (matches (Star (NotChar (CHR ''}''))) (Some (CHR ''{''), s1))"
      and qk: "q \<in> set (matches B k)"
      unfolding S_def seq_iff by blast
    from k obtain a s2 where "s1 = a @ s2" "CHR ''}'' \<notin> set a" "k = (adv (Some (CHR ''{'')) a, s2)"
      unfolding star_notchar_iff by blast
    with s1 qk show ?M by blast
  next
    assume ?M
    then obtain s1 a s2 q where a: "s = ''{{'' @ s1" "s1 = a @ s2" "CHR ''}'' \<notin> set a"
      "q \<in> set (matches B (adv (Some (CHR ''{'')) a, s2))" by blast
    have m: "(Some (CHR ''{''), s1) \<in> set (matches (Lit ''{{'') (p, s))"
      using lit_match_iff [of _ "''{{''" p s] a by simp
    have "(adv (Some (CHR ''{'')) a, s2) \<in> set (matches (Star (NotChar (CHR ''}''))) (Some (CHR ''{''), s1))"
      unfolding star_notchar_iff using a by blast
    with a have "q \<in> set (matches S (Some (CHR ''{''), s1))"
      unfolding S_def seq_iff by blast
    with m show ?L unfolding P seq_iff by blast
  qed
  have wordless: "CHR ''}'' \<notin> set w" if "list_all isword w" for w
    using that by (induction w) auto
  have M: "?M \<longleftrightarrow> ?R"
  proof
    assume ?M
    then obtain a s2 where a: "s = ''{{'' @ a @ s2" "CHR ''}'' \<notin> set a"
      and bd: "isword_opt (adv (Some (CHR ''{'')) a) \<noteq> isword_opt (next_char s2)"
      and alt: "NR s2 \<or> (\<exists>w s3. w \<noteq> [] \<and> list_all isword w \<and> s2 = w @ ''.'' @ s3 \<and> NR s3)"
      unfolding Bd by auto
    from alt show ?R
    proof
      assume nr: "NR s2"
      then have "isword_opt (next_char s2)"
        using NRhd assms(2) by (simp add: isword_opt_def)
      with bd have "a = [] \<or> \<not> isword (last a)"
        by (auto simp: adv_def isword_opt_def split: if_splits)
      with nr a show ?R unfolding NR_def by auto
    next
      assume "\<exists>w s3. w \<noteq> [] \<and> list_all isword w \<and> s2 = w @ ''.'' @ s3 \<and> NR s3"
      then obtain w s3 where w: "w \<noteq> []" "list_all isword w" "s2 = w @ ''.'' @ s3" "NR s3"
        by blast
      then obtain b post where b: "s3 = name @ b @ ''}}'' @ post" "CHR ''}'' \<notin> set b"
        "b = [] \<or> \<not> isword (hd b)" unfolding NR_def by blast
      have "s = ''{{'' @ (a @ w @ ''.'') @ name @ b @ ''}}'' @ post"
        using a w b by simp
      moreover have "CHR ''}'' \<notin> set (a @ w @ ''.'')"
        using a w wordless by auto
      moreover have "\<not> isword (last (a @ w @ ''.''))" by simp
      ultimately show ?R using b by blast
    qed
  next
    assume ?R
    then obtain a b post where a: "s = ''{{'' @ a @ name @ b @ ''}}'' @ post"
      "CHR ''}'' \<notin> set a" "CHR ''}'' \<notin> set b" "a = [] \<or> \<not> isword (last a)"
      "b = [] \<or> \<not> isword (hd b)" by blast
    then have nr: "NR (name @ b @ ''}}'' @ post)" unfolding NR_def by blast
    then have "isword_opt (next_char (name @ b @ ''}}'' @ post))"
      using NRhd assms(2) by (simp add: isword_opt_def)
    moreover have "\<not> isword_opt (adv (Some (CHR ''{'')) a)"
      using a(4) by (auto simp: adv_def isword_opt_def)
    ultimately have "\<exists>q. q \<in> set (matches B (adv (Some (CHR ''{'')) a, name @ b @ ''}}'' @ post))"
      unfolding Bd using nr by blast
    with a show ?M by blast
  qed
  from L M show ?thesis by blast
qed

lemma search_pattern_iff:
  assumes "name \<noteq> []" "isword (hd name)" "isword (last name)"
  shows "search (placeholder_pattern name) t
     \<longleftrightarrow> (\<exists>pre a b post. t = pre @ ''{{'' @ a @ name @ b @ ''}}'' @ post
            \<and> CHR ''}'' \<notin> set a \<and> CHR ''}'' \<notin> set b
            \<and> (a = [] \<or> \<not> isword (last a)) \<and> (b = [] \<or> \<not> isword (hd b)))"
    (is "?L \<longleftrightarrow> ?R")
proof
  assume ?L
  then obtain pos where pos: "pos \<in> set (positions None t)"
    and "matches (placeholder_pattern name) pos \<noteq> []"
    unfolding search_def list_ex_iff by blast
  then obtain q where q: "q \<in> set (matches (placeholder_pattern name) pos)"
    unfolding ex_matches_iff by blast
  from pos obtain pre s where s: "t = pre @ s" "pos = (adv None pre, s)"
    unfolding positions_iff by blast
  with q have "\<exists>q. q \<in> set (matches (placeholder_pattern name) (adv None pre, s))"
    by blast
  then obtain a b post where "s = ''{{'' @ a @ name @ b @ ''}}'' @ post"
    "CHR ''}'' \<notin> set a" "CHR ''}'' \<notin> set b" "a = [] \<or> \<not> isword (last a)"
    "b = [] \<or> \<not> isword (hd b)"
    unfolding pattern_iff [OF assms] by blast
  with s show ?R by blast
next
  assume ?R
  then obtain pre a b post where a: "t = pre @ ''{{'' @ a @ name @ b @ ''}}'' @ post"
    "CHR ''}'' \<notin> set a" "CHR ''}'' \<notin> set b" "a = [] \<or> \<not> isword (last a)"
    "b = [] \<or> \<not> isword (hd b)" by blast
  then have "\<exists>q. q \<in> set (matches (placeholder_pattern name)
      (adv None pre, ''{{'' @ a @ name @ b @ ''}}'' @ post))"
    using pattern_iff [OF assms, of "adv None pre" "''{{'' @ a @ name @ b @ ''}}'' @ post"]
    by blast
  then have "matches (placeholder_pattern name)
      (adv None pre, ''{{'' @ a @ name @ b @ ''}}'' @ post) \<noteq> []"
    unfolding ex_matches_iff .
  moreover have "(adv None pre, ''{{'' @ a @ name @ b @ ''}}'' @ post) \<in> set (positions None t)"
    unfolding positions_iff using a by blast
  ultimately show ?L unfolding search_def list_ex_iff by blast
qed

text \<open>
  C5. The claim says a field named \<open>subtotal\<close> satisfies the check for \<open>total\<close>. The pattern
  has \<open>\b\<close> on both sides of the name, and between \<open>b\<close> and \<open>t\<close> there is no word boundary: the
  search for \<open>total\<close> fails on \<open>{{ subtotal }}\<close>, and a template whose only candidate it is
  raises \<open>MissingPlaceholder\<close> for \<open>total\<close>.
\<close>

theorem subtotal_does_not_satisfy_total:
  "\<not> search (placeholder_pattern ''total'') ''{{ subtotal }}''
   \<and> ensure_placeholders ''{{ product }} {{ price }} {{ qty }} {{ subtotal }}''
       = Inl (CliError (MissingPlaceholder ''total''))"
  by (simp add: regex_defs char_defs)

text \<open>
  C5, as amended. The check for \<open>total\<close> is satisfied exactly by a text that holds \<open>{{\<close>,
  characters other than \<open>}\<close>, the name \<open>total\<close> standing as a whole word (no word character
  directly before or after it), characters other than \<open>}\<close>, and \<open>}}\<close>. A qualified reference
  such as \<open>order.total\<close> is a whole word, the text \<open>subtotal\<close> is not.
\<close>

theorem total_placeholder_is_whole_word:
  "search (placeholder_pattern ''total'') t
     \<longleftrightarrow> (\<exists>pre a b post. t = pre @ ''{{'' @ a @ ''total'' @ b @ ''}}'' @ post
            \<and> CHR ''}'' \<notin> set a \<and> CHR ''}'' \<notin> set b
            \<and> (a = [] \<or> \<not> isword (last a)) \<and> (b = [] \<or> \<not> isword (hd b)))"
  by (rule search_pattern_iff) (simp_all add: isword_def code_point_def)

theorem total_placeholder_is_whole_word_witness:
  "search (placeholder_pattern ''total'') ''<b>{{ order.total }}</b>''"
proof -
  have "''<b>{{ order.total }}</b>'' = ''<b>'' @ ''{{'' @ '' order.'' @ ''total'' @ '' '' @ ''}}'' @ ''</b>''
      \<and> CHR ''}'' \<notin> set '' order.'' \<and> CHR ''}'' \<notin> set '' ''
      \<and> ('' order.'' = [] \<or> \<not> isword (last '' order.'')) \<and> ('' '' = [] \<or> \<not> isword (hd '' ''))"
    by (simp add: isword_def code_point_def)
  then show ?thesis
    unfolding total_placeholder_is_whole_word by blast
qed

section \<open>The delimiter\<close>

lemma c2s_map: "comma_to_semicolon s = map sw s"
  by (simp add: comma_to_semicolon_def sw_def)

lemma sw_simps [simp]:
  "sw c = CHR 0x0A \<longleftrightarrow> c = CHR 0x0A"
  "sw c = CHR 0x0D \<longleftrightarrow> c = CHR 0x0D"
  "sw c = CHR 0x22 \<longleftrightarrow> c = CHR 0x22"
  "isspace (sw c) = isspace c"
  by (auto simp: sw_def isspace_def code_point_def)

lemma sw_delim: "c \<noteq> CHR '';'' \<Longrightarrow> sw c = CHR '';'' \<longleftrightarrow> c = CHR '',''"
  by (simp add: sw_def)

lemma translate_newlines_sw:
  "translate_newlines (map sw s) = map sw (translate_newlines s)"
  by (induction s rule: translate_newlines.induct) (auto simp: sw_def)

lemma dropWhile_isspace_sw:
  "dropWhile isspace (map sw s) = map sw (dropWhile isspace s)"
  by (induction s) auto

lemma strip_sw: "strip (map sw s) = map sw (strip s)"
  by (simp add: strip_def dropWhile_isspace_sw rev_map)

lemma file_lines_sw:
  "file_lines (map sw cur) (map sw s) = map (map sw) (file_lines cur s)"
  by (induction cur s rule: file_lines.induct) (auto simp: rev_map)

lemma sw_reader_simps [simp]:
  "state (sw_reader r) = state r"
  "row_fields (sw_reader r) = map (map sw) (row_fields r)"
  "field (sw_reader r) = map sw (field r)"
  "sw_reader (r\<lparr>state := st\<rparr>) = (sw_reader r)\<lparr>state := st\<rparr>"
  by (simp_all add: sw_reader_def)

lemma parse_save_field_sw [simp]:
  "parse_save_field (sw_reader r) = sw_reader (parse_save_field r)"
  by (simp add: parse_save_field_def sw_reader_def)

lemma sw_result_simps [simp]:
  "sw_result (Inl e) = Inl e" "sw_result (Inr r) = Inr (sw_reader r)"
  by (simp_all add: sw_result_def)

lemma sw_event_simps [simp]:
  "sw_event (Inl e) = Inl e" "sw_event (Inr row) = Inr (map (map sw) row)"
  by (simp_all add: sw_event_def)

lemma parse_add_char_sw [simp]:
  "parse_add_char (sw_reader r) (sw c) = sw_result (parse_add_char r c)"
  by (simp add: parse_add_char_def sw_reader_def)

lemma wrap_sw [simp]:
  "(case sw_result v of Inl e \<Rightarrow> Inl e | Inr r' \<Rightarrow> Inr (r'\<lparr>state := st\<rparr>))
     = sw_result (case v of Inl e \<Rightarrow> Inl e | Inr r' \<Rightarrow> Inr (r'\<lparr>state := st\<rparr>))"
  by (cases v) simp_all

lemma start_field_sw:
  assumes "c \<noteq> Some (CHR '';'')"
  shows "start_field (CHR '';'') (sw_reader r) (map_option sw c)
       = sw_result (start_field (CHR '','') r c)"
proof (cases c)
  case None
  then show ?thesis by (simp add: start_field_def line_end_def after_line_end_def)
next
  case (Some x)
  with assms have "x \<noteq> CHR '';''" by simp
  then show ?thesis
    using Some
    by (simp add: start_field_def line_end_def after_line_end_def sw_delim)
qed

lemma parse_process_char_sw:
  assumes "c \<noteq> Some (CHR '';'')"
  shows "parse_process_char (CHR '';'') (sw_reader r) (map_option sw c)
       = sw_result (parse_process_char (CHR '','') r c)"
proof (cases c)
  case None
  then show ?thesis
    using start_field_sw [of None r]
    by (cases "state r")
       (simp_all add: parse_process_char_def line_end_def after_line_end_def)
next
  case (Some x)
  with assms have x: "x \<noteq> CHR '';''" by simp
  have sf: "start_field (CHR '';'') (sw_reader r') (Some (sw x))
       = sw_result (start_field (CHR '','') r' (Some x))" for r'
    using start_field_sw [of "Some x" r'] x by simp
  show ?thesis
  proof (cases "state r")
    case START_RECORD
    then show ?thesis
      using Some sf [of "r\<lparr>state := START_FIELD\<rparr>"]
      by (simp add: parse_process_char_def line_end_def)
  next
    case START_FIELD
    then show ?thesis
      using Some sf [of r] by (simp add: parse_process_char_def)
  next
    case IN_FIELD
    then show ?thesis
      using Some x
      by (simp add: parse_process_char_def line_end_def after_line_end_def sw_delim)
  next
    case IN_QUOTED_FIELD
    then show ?thesis
      using Some x by (simp add: parse_process_char_def)
  next
    case QUOTE_IN_QUOTED_FIELD
    then show ?thesis
      using Some x
      by (simp add: parse_process_char_def line_end_def after_line_end_def sw_delim)
  next
    case EAT_CRNL
    then show ?thesis
      using Some x by (simp add: parse_process_char_def line_end_def)
  qed
qed

lemma feed_sw:
  assumes "CHR '';'' \<notin> set l"
  shows "feed (CHR '';'') (sw_reader r) (map sw l) = sw_result (feed (CHR '','') r l)"
  using assms
proof (induction l arbitrary: r)
  case Nil
  then show ?case using parse_process_char_sw [of None r] by simp
next
  case (Cons c l)
  then have c: "Some c \<noteq> Some (CHR '';'')" by auto
  show ?case
  proof (cases "parse_process_char (CHR '','') r (Some c)")
    case (Inl e)
    then show ?thesis using parse_process_char_sw [OF c, of r] by simp
  next
    case (Inr r')
    then show ?thesis using parse_process_char_sw [OF c, of r] Cons by simp
  qed
qed

lemma parse_reset_sw [simp]: "sw_reader parse_reset = parse_reset"
  by (simp add: sw_reader_def parse_reset_def)


lemma reader_rows_sw:
  assumes "\<forall>l \<in> set ls. CHR '';'' \<notin> set l"
  shows "reader_rows (CHR '';'') (sw_reader r) (map (map sw) ls)
       = map sw_event (reader_rows (CHR '','') r ls)"
  using assms
proof (induction ls arbitrary: r)
  case Nil
  then show ?case by simp
next
  case (Cons l ls)
  then have l: "CHR '';'' \<notin> set l" by simp
  from Cons.prems have ls: "\<forall>l \<in> set ls. CHR '';'' \<notin> set l" by simp
  show ?case
  proof (cases "feed (CHR '','') r l")
    case (Inl e)
    then show ?thesis using feed_sw [OF l, of r] by simp
  next
    case (Inr r')
    then have f: "feed (CHR '';'') (sw_reader r) (map sw l) = Inr (sw_reader r')"
      using feed_sw [OF l, of r] by simp
    show ?thesis
    proof (cases "state r' = START_RECORD")
      case True
      then show ?thesis
        using Inr f Cons.IH [OF ls, of parse_reset] by simp
    next
      case False
      then show ?thesis
        using Inr f Cons.IH [OF ls, of r'] by simp
    qed
  qed
qed

lemma file_lines_no_semicolon:
  "CHR '';'' \<notin> set cur \<Longrightarrow> CHR '';'' \<notin> set s
     \<Longrightarrow> l \<in> set (file_lines cur s) \<Longrightarrow> CHR '';'' \<notin> set l"
  by (induction cur s rule: file_lines.induct) (auto split: if_splits)

lemma csv_reader_sw:
  assumes "CHR '';'' \<notin> set content"
  shows "csv_reader (CHR '';'') (map sw content)
       = map sw_event (csv_reader (CHR '','') content)"
proof -
  have "file_lines [] (map sw content) = map (map sw) (file_lines [] content)"
    using file_lines_sw [of "[]" content] by simp
  moreover have "\<forall>l \<in> set (file_lines [] content). CHR '';'' \<notin> set l"
    using assms file_lines_no_semicolon [of "[]" content] by simp
  ultimately show ?thesis
    unfolding csv_reader_def using reader_rows_sw [of "file_lines [] content" parse_reset]
    by simp
qed


lemma sw_event_id:
  "(case ev of Inl e \<Rightarrow> True | Inr row \<Rightarrow> list_all (\<lambda>f. CHR '','' \<notin> set f) row)
     \<Longrightarrow> sw_event ev = ev"
proof (cases ev)
  case (Inl e)
  then show ?thesis by simp
next
  case (Inr row)
  assume "case ev of Inl e \<Rightarrow> True | Inr row \<Rightarrow> list_all (\<lambda>f. CHR '','' \<notin> set f) row"
  with Inr have "\<forall>f \<in> set row. CHR '','' \<notin> set f" by (simp add: list_all_iff)
  then have "\<forall>f \<in> set row. map sw f = f"
    by (auto simp: sw_def intro!: map_idI)
  then have "map (map sw) row = row" by (simp add: map_idI)
  with Inr show ?thesis by simp
qed

text \<open>
  C8. Take a comma-separated text without semicolons in which no field the reader yields
  holds a comma, and replace every comma by a semicolon. When the sniffer detects the
  comma on the first text and the semicolon on the second, the loader returns the same
  result for both: the same ordered items and the same total, or the same error. The
  example of the spec gives Apple and Bread with the total 5.97 under both delimiters.
\<close>

theorem delimiter_invariance:
  assumes "CHR '';'' \<notin> set content"
    and "list_all (\<lambda>ev. case ev of Inl e \<Rightarrow> True
                       | Inr row \<Rightarrow> list_all (\<lambda>f. CHR '','' \<notin> set f) row)
           (csv_reader (CHR '','') content)"
    and "detect_delimiter sniff (translate_newlines content) = Inr (CHR '','')"
    and "detect_delimiter sniff (translate_newlines (comma_to_semicolon content))
           = Inr (CHR '';'')"
  shows "read_csv_rows sniff (Some (comma_to_semicolon content))
       = read_csv_rows sniff (Some content)"
proof -
  have "map sw_event (csv_reader (CHR '','') content) = csv_reader (CHR '','') content"
    using assms(2) by (simp add: list_all_iff sw_event_id map_idI)
  then have rd: "csv_reader (CHR '';'') (comma_to_semicolon content)
      = csv_reader (CHR '','') content"
    using csv_reader_sw [OF assms(1)] by (simp add: c2s_map)
  have "strip (translate_newlines (comma_to_semicolon content))
      = map sw (strip (translate_newlines content))"
    by (simp add: c2s_map translate_newlines_sw strip_sw)
  then have blank: "strip (translate_newlines (comma_to_semicolon content)) = []
      \<longleftrightarrow> strip (translate_newlines content) = []"
    by simp
  show ?thesis
    using assms(3,4) rd blank by (simp add: read_csv_rows_def Let_def)
qed

theorem delimiter_invariance_witness:
  "read_csv_rows (\<lambda>sample delimiters. find (\<lambda>d. d \<in> set sample) delimiters)
      (Some ''product;price;qty\<newline>Apple;1.50;2\<newline>Bread;0.99;3'')
     = Inr ([\<lparr>product = ''Apple'', price = ''1.50'', qty = 2, line_total = ''3.00''\<rparr>,
             \<lparr>product = ''Bread'', price = ''0.99'', qty = 3, line_total = ''2.97''\<rparr>],
            Finite False 597 (- 2))
   \<and> read_csv_rows (\<lambda>sample delimiters. find (\<lambda>d. d \<in> set sample) delimiters)
      (Some ''product,price,qty\<newline>Apple,1.50,2\<newline>Bread,0.99,3'')
     = Inr ([\<lparr>product = ''Apple'', price = ''1.50'', qty = 2, line_total = ''3.00''\<rparr>,
             \<lparr>product = ''Bread'', price = ''0.99'', qty = 3, line_total = ''2.97''\<rparr>],
            Finite False 597 (- 2))"
proof -
  let ?sniff = "\<lambda>sample delimiters. find (\<lambda>d. d \<in> set sample) delimiters"
  let ?comma = "''product,price,qty\<newline>Apple,1.50,2\<newline>Bread,0.99,3''"
  have c: "read_csv_rows ?sniff (Some ?comma)
     = Inr ([\<lparr>product = ''Apple'', price = ''1.50'', qty = 2, line_total = ''3.00''\<rparr>,
             \<lparr>product = ''Bread'', price = ''0.99'', qty = 3, line_total = ''2.97''\<rparr>],
            Finite False 597 (- 2))"
    by (simp add: char_defs dec_defs parser_defs csv_defs Let_def)
  have s: "comma_to_semicolon ?comma = ''product;price;qty\<newline>Apple;1.50;2\<newline>Bread;0.99;3''"
    by (simp add: comma_to_semicolon_def)
  have h1: "CHR '';'' \<notin> set ?comma" by simp
  have h2: "list_all (\<lambda>ev. case ev of Inl e \<Rightarrow> True
                       | Inr row \<Rightarrow> list_all (\<lambda>f. CHR '','' \<notin> set f) row)
           (csv_reader (CHR '','') ?comma)"
    by (simp add: csv_defs)
  have h3: "detect_delimiter ?sniff (translate_newlines ?comma) = Inr (CHR '','')"
    by (simp add: detect_delimiter_def)
  have h4: "detect_delimiter ?sniff (translate_newlines (comma_to_semicolon ?comma))
           = Inr (CHR '';'')"
    unfolding s by (simp add: detect_delimiter_def)
  show ?thesis
    using delimiter_invariance [OF h1 h2 h3 h4] c unfolding s by simp
qed

section \<open>Decimal arithmetic of the loader\<close>

lemma ndigits_pos [simp]: "0 < ndigits n"
  by (subst ndigits.simps) simp

lemma ndigits_le_iff: "0 < k \<Longrightarrow> ndigits n \<le> k \<longleftrightarrow> n < 10 ^ k"
proof (induction n arbitrary: k rule: ndigits.induct)
  case (1 n)
  show ?case
  proof (cases "n < 10")
    case True
    have "(10::nat) ^ 1 \<le> 10 ^ k" using 1(2) by (intro power_increasing) simp_all
    with True have "n < 10 ^ k" by simp
    with True 1(2) show ?thesis by (subst ndigits.simps) simp
  next
    case False
    show ?thesis
    proof (cases k)
      case 0
      with 1(2) show ?thesis by simp
    next
      case (Suc j)
      show ?thesis
      proof (cases "j = 0")
        case True
        with False Suc show ?thesis by (subst ndigits.simps) simp
      next
        case j: False
        then have "ndigits (n div 10) \<le> j \<longleftrightarrow> n div 10 < 10 ^ j"
          using 1(1) [OF False, of j] by simp
        moreover have "n div 10 < 10 ^ j \<longleftrightarrow> n < 10 ^ Suc j"
          by (simp add: div_less_iff_less_mult mult.commute)
        ultimately show ?thesis using False Suc by (subst ndigits.simps) simp
      qed
    qed
  qed
qed

lemma ndigits_upper: "n < 10 ^ ndigits n"
  using ndigits_le_iff [of "ndigits n" n] by simp

lemma ndigits_lower: "0 < n \<Longrightarrow> 10 ^ (ndigits n - 1) \<le> n"
proof (cases "ndigits n = 1")
  case True
  assume "0 < n"
  with True show ?thesis by simp
next
  case False
  then have "0 < ndigits n - 1" using ndigits_pos [of n] by linarith
  then have "ndigits n \<le> ndigits n - 1 \<longleftrightarrow> n < 10 ^ (ndigits n - 1)"
    by (rule ndigits_le_iff)
  moreover have "\<not> ndigits n \<le> ndigits n - 1" using ndigits_pos [of n] by linarith
  ultimately show ?thesis by (simp add: not_less)
qed

lemma ndigits_eqI: "0 < k \<Longrightarrow> 10 ^ (k - 1) \<le> n \<Longrightarrow> n < 10 ^ k \<Longrightarrow> ndigits n = k"
proof -
  assume k: "0 < k" and lo: "10 ^ (k - 1) \<le> n" and hi: "n < 10 ^ k"
  from k hi have le: "ndigits n \<le> k" by (simp add: ndigits_le_iff)
  have "\<not> ndigits n \<le> k - 1"
  proof (cases "k = 1")
    case True
    then show ?thesis using ndigits_pos [of n] by simp
  next
    case False
    with k have "0 < k - 1" by simp
    then show ?thesis using lo by (simp add: ndigits_le_iff not_less)
  qed
  with le show ?thesis by simp
qed

lemma ndigits_mono: "m \<le> n \<Longrightarrow> ndigits m \<le> ndigits n"
  using ndigits_le_iff [of "ndigits n" m] ndigits_upper [of n] by simp

lemma ndigits_mult_power: "0 < n \<Longrightarrow> ndigits (n * 10 ^ k) = ndigits n + k"
proof (rule ndigits_eqI)
  assume n: "0 < n"
  show "0 < ndigits n + k" by simp
  have "10 ^ (ndigits n - 1) * 10 ^ k \<le> n * 10 ^ k"
    using ndigits_lower [OF n] by simp
  moreover have "(10::nat) ^ (ndigits n + k - 1) = 10 ^ (ndigits n - 1) * 10 ^ k"
  proof -
    have "ndigits n + k - 1 = (ndigits n - 1) + k" using ndigits_pos [of n] by linarith
    then show ?thesis by (simp add: power_add)
  qed
  ultimately show "10 ^ (ndigits n + k - 1) \<le> n * 10 ^ k" by simp
  show "n * 10 ^ k < 10 ^ (ndigits n + k)"
    using ndigits_upper [of n] by (simp add: power_add)
qed


lemma round_drop_cases:
  "round_drop r c k = c div 10 ^ k \<or> round_drop r c k = c div 10 ^ k + 1"
  by (cases r) (simp_all add: round_drop_def Let_def)

lemma dec_fix_small:
  assumes "ndigits c \<le> 28" "- 2 \<le> e" "e \<le> 0"
  shows "dec_fix (Finite s c e) = Inr (Finite s c e)"
proof (cases "c = 0")
  case True
  with assms show ?thesis
    by (simp add: dec_fix_def Etiny_def Emin_def Emax_def prec_def)
next
  case False
  have "int (ndigits c) + e - 28 \<le> e" using assms by simp
  with False assms show ?thesis
    by (simp add: dec_fix_def Let_def Etiny_def Etop_def Emin_def Emax_def prec_def)
qed

lemma dec_fix_adjusted:
  assumes c: "0 < c" and e: "- 2 \<le> e"
    and fx: "dec_fix (Finite s c e) = Inr d"
  shows "\<exists>c' e'. d = Finite s c' e' \<and> 0 < c' \<and> e \<le> e' \<and> adjusted c e \<le> adjusted c' e'"
proof (cases "ndigits c \<le> 28")
  case True
  then have "int (ndigits c) + e - 28 \<le> e" by simp
  with True c e fx have "d = Finite s c e"
    by (simp add: dec_fix_def Let_def Etiny_def Etop_def Emin_def Emax_def prec_def
        split: if_splits)
  with c show ?thesis by auto
next
  case False
  define n where "n = ndigits c"
  define k where "k = n - 28"
  define q where "q = round_to ROUND_HALF_EVEN c e (int n + e - 28)"
  from False have n: "28 < n" by (simp add: n_def)
  then have k: "0 < k" "n = k + 28" by (simp_all add: k_def)
  have em: "max (int n + e - 28) Etiny = int n + e - 28"
    using n e by (simp add: Etiny_def Emin_def prec_def)
  have nat_k: "nat (int n + e - 28 - e) = k" using k by simp
  have q_def': "q = round_drop ROUND_HALF_EVEN c k"
    using nat_k by (simp add: q_def round_to_def n_def [symmetric])
  have lo: "10 ^ 27 \<le> c div 10 ^ k"
  proof -
    have "10 ^ (n - 1) \<le> c" using ndigits_lower [OF c] by (simp add: n_def)
    moreover have "(10::nat) ^ (n - 1) = 10 ^ 27 * 10 ^ k"
      using k by (simp add: power_add)
    ultimately have "10 ^ 27 * 10 ^ k \<le> c" by simp
    then show ?thesis by (simp add: less_eq_div_iff_mult_less_eq)
  qed
  have hi: "c div 10 ^ k < 10 ^ 28"
  proof -
    have "c < 10 ^ n" using ndigits_upper [of c] by (simp add: n_def)
    also have "(10::nat) ^ n = 10 ^ 28 * 10 ^ k" using k by (simp add: power_add)
    finally show ?thesis by (simp add: div_less_iff_less_mult)
  qed
  from round_drop_cases [of ROUND_HALF_EVEN c k] lo hi
  have qb: "10 ^ 27 \<le> q" "q \<le> 10 ^ 28" unfolding q_def' by auto
  have "e < int n + e - 28" using n by simp
  then have "dec_fix (Finite s c e) = (if Etop < int n + e - 28 then Inl Overflow
       else if Etop < (if 28 < ndigits q then int n + e - 28 + 1 else int n + e - 28)
       then Inl Overflow
       else Inr (Finite s (if 28 < ndigits q then q div 10 else q)
                  (if 28 < ndigits q then int n + e - 28 + 1 else int n + e - 28)))"
    using c em
    by (simp add: dec_fix_def Let_def prec_def n_def [symmetric] q_def [symmetric])
  with fx have fx': "(if Etop < int n + e - 28 then Inl Overflow
       else if Etop < (if 28 < ndigits q then int n + e - 28 + 1 else int n + e - 28)
       then Inl Overflow
       else Inr (Finite s (if 28 < ndigits q then q div 10 else q)
                  (if 28 < ndigits q then int n + e - 28 + 1 else int n + e - 28))) = Inr d"
    by simp
  show ?thesis
  proof (cases "28 < ndigits q")
    case True
    then have "\<not> q < 10 ^ 28" using ndigits_le_iff [of 28 q] by simp
    with qb have q: "q = 10 ^ 28" by simp
    then have "q div 10 = 10 ^ 27" by simp
    moreover have nd: "ndigits (1000000000000000000000000000::nat) = 28"
      by (rule ndigits_eqI) simp_all
    ultimately have "d = Finite s 1000000000000000000000000000 (int n + e - 28 + 1)"
      using fx' True by (simp split: if_splits)
    then show ?thesis
      using n nd by (auto simp: adjusted_def n_def [symmetric])
  next
    case F: False
    have nd: "ndigits q = 28"
      using qb F ndigits_le_iff [of 27 q] by (simp add: not_less)
    from fx' F have "d = Finite s q (int n + e - 28)" by (simp split: if_splits)
    then show ?thesis
      using n qb nd by (auto simp: adjusted_def n_def [symmetric])
  qed
qed


lemma check_nans_Finite [simp]: "check_nans (Finite s c e) (Finite t d f) = None"
  by (simp add: check_nans_def)

lemma quantize_Finite:
  "quantize (Finite s c e) (Finite t u (- 2)) r =
     (if c = 0 then dec_fix (Finite s 0 (- 2))
      else if Emax < adjusted c e then Inl InvalidOperation
      else if 28 < adjusted c e + 3 then Inl InvalidOperation
      else (case rescale s c e (- 2) r of
          Finite s' c' e' \<Rightarrow>
            if Emax < adjusted c' e' then Inl InvalidOperation
            else if prec < ndigits c' then Inl InvalidOperation
            else dec_fix (Finite s' c' e')
        | other \<Rightarrow> Inr other))"
  by (simp add: quantize_def Etiny_def Emin_def prec_def Emax_def)

lemma rescale_Finite: "\<exists>c'. rescale s c e ex r = Finite s c' ex \<and> (c = 0 \<longrightarrow> c' = 0)"
  by (simp add: rescale_def)

lemma quantize_big:
  assumes "0 < c" "26 \<le> adjusted c e"
  shows "quantize (Finite s c e) (Finite t u (- 2)) r = Inl InvalidOperation"
  using assms by (simp add: quantize_Finite)

lemma quantize_exact:
  assumes "ndigits c \<le> 28"
  shows "quantize (Finite s c (- 2)) (Finite t u (- 2)) r = Inr (Finite s c (- 2))"
proof (cases "c = 0")
  case True
  then show ?thesis
    using dec_fix_small [of 0 "- 2" s] by (simp add: quantize_Finite ndigits_0)
next
  case False
  have "rescale s c (- 2) (- 2) r = Finite s c (- 2)"
    using False by (simp add: rescale_def)
  then show ?thesis
    using False assms dec_fix_small [OF assms, of "- 2" s]
    by (simp add: quantize_Finite adjusted_def Emax_def prec_def)
qed

lemma quantize_shape:
  assumes "quantize (Finite s c e) (Finite t u (- 2)) r = Inr d"
  shows "\<exists>c'. d = Finite s c' (- 2) \<and> ndigits c' \<le> 28 \<and> (c = 0 \<longrightarrow> c' = 0)"
proof (cases "c = 0")
  case True
  then show ?thesis
    using assms dec_fix_small [of 0 "- 2" s] by (auto simp: quantize_Finite ndigits_0)
next
  case False
  obtain c' where r: "rescale s c e (- 2) r = Finite s c' (- 2)"
    using rescale_Finite [of s c e "- 2" r] by blast
  from assms False r have nd: "ndigits c' \<le> 28" and fx: "dec_fix (Finite s c' (- 2)) = Inr d"
    by (simp_all add: quantize_Finite prec_def split: if_splits)
  from fx dec_fix_small [OF nd, of "- 2" s] have "d = Finite s c' (- 2)" by simp
  with nd False show ?thesis by simp
qed

lemma parse_price_shape:
  assumes "parse_price raw = Inr p"
  shows "\<exists>s c. p = Finite s c (- 2) \<and> ndigits c \<le> 28 \<and> (s \<longrightarrow> c = 0)"
proof -
  from assms obtain v where lt: "dec_lt_zero v = Inr False"
    and q: "quantize v (Finite False (Suc 0) (- 2)) ROUND_HALF_UP = Inr p"
    by (auto simp: parse_price_def Let_def split: if_splits option.splits sum.splits bool.splits)
  show ?thesis
  proof (cases v)
    case (Finite s c e)
    with lt have "s \<longrightarrow> c = 0" by (simp add: dec_lt_zero_def)
    with quantize_shape [of s c e False "Suc 0" ROUND_HALF_UP p] q Finite show ?thesis by auto
  next
    case (Infinity s)
    with q show ?thesis by (simp add: quantize_def check_nans_def)
  next
    case (NaN s sig pl)
    with lt show ?thesis by (simp add: dec_lt_zero_def)
  qed
qed

lemma strip_id:
  assumes "s \<noteq> []" "\<not> isspace (hd s)" "\<not> isspace (last s)"
  shows "strip s = s"
proof -
  from assms have "dropWhile isspace s = s" by (cases s) auto
  moreover from assms have "dropWhile isspace (rev s) = rev s"
    by (cases "rev s") (auto simp: last_rev [symmetric] simp del: last_rev)
  ultimately show ?thesis by (simp add: strip_def)
qed

lemma isdigit_char_not_space: "isdigit_char c \<Longrightarrow> \<not> isspace c"
  by (auto simp: isdigit_char_def isspace_def Let_def)

lemma parse_qty_nonneg:
  assumes "parse_qty raw = Inr q"
  shows "0 \<le> q"
proof -
  define t where "t = strip (or_empty raw)"
  from assms have ne: "t \<noteq> []" and dg: "list_all isdigit_char t" and pi: "py_int t = Inr q"
    by (auto simp: parse_qty_def Let_def t_def isdigit_def split: if_splits)
  from ne dg have "isdigit_char (hd t)" "isdigit_char (last t)"
    by (auto simp: list_all_iff)
  then have st: "strip t = t" and "hd t \<noteq> CHR ''-''"
    using ne strip_id isdigit_char_not_space
    by (auto simp: isdigit_char_def code_point_def)
  with pi ne show ?thesis
    by (auto simp: py_int_def Let_def split: if_splits)
qed


lemma quantize_blown: "blown d \<Longrightarrow> quantize d (Finite t u (- 2)) r = Inl InvalidOperation"
  unfolding blown_def using quantize_big by blast

lemma line_total_exact:
  assumes nd: "ndigits c \<le> 28" and q: "0 \<le> q"
    and m: "dec_mul (Finite s c (- 2)) (Decimal_of_int q) = Inr m"
    and lt: "quantize m (Finite t u (- 2)) r = Inr lt"
  shows "lt = Finite s (c * nat q) (- 2) \<and> ndigits (c * nat q) \<le> 28"
proof -
  from q m have fx: "dec_fix (Finite s (c * nat q) (- 2)) = Inr m"
    by (simp add: dec_mul_def Decimal_of_int_def)
  show ?thesis
  proof (cases "ndigits (c * nat q) \<le> 28")
    case True
    with fx dec_fix_small [OF True, of "- 2" s] have "m = Finite s (c * nat q) (- 2)" by simp
    with lt quantize_exact [OF True, of s t u r] True show ?thesis by simp
  next
    case False
    then have pos: "0 < c * nat q" by (cases "c * nat q = 0") (simp_all add: ndigits_0)
    from dec_fix_adjusted [OF pos _ fx] obtain c' e'
      where "m = Finite s c' e'" "0 < c'" "adjusted (c * nat q) (- 2) \<le> adjusted c' e'"
      by auto
    moreover have "26 \<le> adjusted (c * nat q) (- 2)"
      using False by (simp add: adjusted_def)
    ultimately have "quantize m (Finite t u (- 2)) r = Inl InvalidOperation"
      using quantize_big [of c' e' s t u r] by simp
    with lt show ?thesis by simp
  qed
qed

lemma normalize_same_exp:
  assumes "0 < a" "ndigits a \<le> 28" "0 < b"
  shows "normalize (a, - 2) (b, - 2) = ((a, - 2), (b, - 2))"
proof -
  have "\<not> int (ndigits b) + - 2 - 1 < - 2 + min (- 1) (int (ndigits a) - int prec - 2)"
    using assms ndigits_pos [of b] by (simp add: prec_def)
  then show ?thesis by (simp add: normalize_def Let_def)
qed

lemma add_exact:
  assumes T: "ndigits T \<le> 28" and l: "ndigits l \<le> 28" and sg: "s \<longrightarrow> l = 0"
    and ad: "dec_add (Finite False T (- 2)) (Finite s l (- 2)) = Inr d"
  shows "(d = Finite False (T + l) (- 2) \<and> ndigits (T + l) \<le> 28) \<or> blown d"
proof -
  have fx: "dec_fix (Finite False (T + l) (- 2)) = Inr d"
  proof (cases "T = 0")
    case T0: True
    show ?thesis
    proof (cases "l = 0")
      case True
      with T0 ad show ?thesis by (simp add: dec_add_def)
    next
      case False
      with sg have "\<not> s" by simp
      with T0 False ad show ?thesis
        by (simp add: dec_add_def Let_def rescale_def prec_def)
    qed
  next
    case Tn: False
    show ?thesis
    proof (cases "l = 0")
      case True
      with Tn ad show ?thesis
        by (simp add: dec_add_def Let_def rescale_def prec_def)
    next
      case False
      with sg have "\<not> s" by simp
      moreover have "normalize (T, - 2) (l, - 2) = ((T, - 2), (l, - 2))"
        using Tn False T by (intro normalize_same_exp) simp_all
      ultimately show ?thesis
        using Tn False ad by (simp add: dec_add_def Let_def)
    qed
  qed
  show ?thesis
  proof (cases "ndigits (T + l) \<le> 28")
    case True
    with fx dec_fix_small [OF True, of "- 2" False] show ?thesis by simp
  next
    case False
    then have pos: "0 < T + l" by (cases "T + l = 0") (simp_all add: ndigits_0)
    from dec_fix_adjusted [OF pos _ fx] obtain c' e'
      where "d = Finite False c' e'" "0 < c'" "- 2 \<le> e'"
        "adjusted (T + l) (- 2) \<le> adjusted c' e'"
      by auto
    moreover have "26 \<le> adjusted (T + l) (- 2)"
      using False by (simp add: adjusted_def)
    ultimately show ?thesis by (auto simp: blown_def)
  qed
qed


lemma adjusted_scaled:
  assumes "0 < c" "e1 \<le> e"
  shows "adjusted (c * 10 ^ nat (e - e1)) e1 = adjusted c e"
  using assms by (simp add: adjusted_def ndigits_mult_power)

lemma adjusted_mono: "a \<le> b \<Longrightarrow> adjusted a e \<le> adjusted b e"
  using ndigits_mono [of a b] by (simp add: adjusted_def)

lemma fix_blown:
  assumes "0 < c" "e1 \<le> e" "- 2 \<le> e1" "26 \<le> adjusted c e"
    and "dec_fix (Finite False (c * 10 ^ nat (e - e1) + i) e1) = Inr d"
  shows "blown d"
proof -
  have pos: "0 < c * 10 ^ nat (e - e1) + i" using assms(1) by simp
  from dec_fix_adjusted [OF pos assms(3) assms(5)] obtain c' e'
    where d: "d = Finite False c' e'" "0 < c'" "e1 \<le> e'"
      "adjusted (c * 10 ^ nat (e - e1) + i) e1 \<le> adjusted c' e'"
    by auto
  have "adjusted c e \<le> adjusted (c * 10 ^ nat (e - e1) + i) e1"
    using adjusted_mono [of "c * 10 ^ nat (e - e1)" "c * 10 ^ nat (e - e1) + i" e1]
      adjusted_scaled [OF assms(1) assms(2)] by simp
  with d assms show ?thesis by (auto simp: blown_def)
qed

lemma add_blown:
  assumes a: "blown a" and l: "ndigits l \<le> 28" and sg: "s \<longrightarrow> l = 0"
    and ad: "dec_add a (Finite s l (- 2)) = Inr d"
  shows "blown d"
proof -
  from a obtain c e where a': "a = Finite False c e" and c: "0 < c" and e: "- 2 \<le> e"
    and adj: "26 \<le> adjusted c e"
    unfolding blown_def by blast
  show ?thesis
  proof (cases "l = 0")
    case True
    define e1 where "e1 = max (- 2) (e - 29)"
    have e1: "e1 \<le> e" "- 2 \<le> e1" using e by (simp_all add: e1_def)
    have "min e (- 2) = - 2" using e by simp
    then have "dec_fix (Finite False (c * 10 ^ nat (e - e1) + 0) e1) = Inr d"
      using ad a' c True e1
      by (simp add: dec_add_def Let_def rescale_def prec_def e1_def)
    then show ?thesis by (rule fix_blown [OF c e1 adj])
  next
    case False
    with sg have s: "\<not> s" by simp
    define ex where "ex = e + min (- 1) (int (ndigits c) - int prec - 2)"
    define other where
      "other = (if int (ndigits l) + - 2 - 1 < ex then (1, ex) else (l, - 2))"
    have nsw: "\<not> e < - 2" using e by simp
    have nz: "normalize (c, e) (l, - 2)
        = ((c * 10 ^ nat (e - snd other), snd other), other)"
      using nsw by (simp add: normalize_def Let_def ex_def other_def)
    have e1: "snd other \<le> e" "- 2 \<le> snd other"
      using e ndigits_pos [of l] by (auto simp: other_def ex_def)
    have "dec_fix (Finite False (c * 10 ^ nat (e - snd other) + fst other) (snd other))
        = Inr d"
      using ad a' c False s nz
      by (cases other) (simp add: dec_add_def Let_def)
    then show ?thesis by (rule fix_blown [OF c e1 adj])
  qed
qed


lemma process_row_inv:
  assumes "process_row row = Inr (it, lt)"
  shows "\<exists>s l. lt = Finite s l (- 2) \<and> (s \<longrightarrow> l = 0) \<and> ndigits l \<le> 28 \<and> item_inv it l"
proof -
  from assms obtain pr q m p
    where pp: "parse_price (get_or_empty row ''price'') = Inr pr"
      and pq: "parse_qty (get_or_empty row ''qty'') = Inr q"
      and mu: "dec_mul pr (Decimal_of_int q) = Inr m"
      and qu: "quantize m (Finite False (Suc 0) (- 2)) ROUND_HALF_UP = Inr lt"
      and it: "it = \<lparr>product = p, price = format_2f pr, qty = q, line_total = format_2f lt\<rparr>"
    by (auto simp: process_row_def Let_def split: if_splits sum.splits)
  from parse_price_shape [OF pp] obtain s c
    where pr: "pr = Finite s c (- 2)" and nd: "ndigits c \<le> 28" and sg: "s \<longrightarrow> c = 0"
    by blast
  from parse_qty_nonneg [OF pq] have q: "0 \<le> q" .
  from line_total_exact [OF nd q mu [unfolded pr] qu]
  have lt: "lt = Finite s (c * nat q) (- 2)" and ndl: "ndigits (c * nat q) \<le> 28" by simp_all
  have "item_inv it (c * nat q)"
    unfolding item_inv_def using it pr lt nd ndl sg q by auto
  with lt ndl sg show ?thesis by auto
qed

lemma loop_blown:
  "blown tot \<Longrightarrow> rows_loop fieldnames evs items tot = Inr (items', tot') \<Longrightarrow> blown tot'"
proof (induction evs arbitrary: items tot)
  case Nil
  then show ?case by simp
next
  case (Cons ev evs)
  show ?case
  proof (cases ev)
    case (Inl err)
    with Cons.prems show ?thesis by simp
  next
    case (Inr row)
    show ?thesis
    proof (cases "row = []")
      case True
      with Inr Cons.prems Cons.IH [of tot items] show ?thesis by simp
    next
      case False
      with Inr Cons.prems(2) obtain it lt tot1
        where pr: "process_row (make_row fieldnames row) = Inr (it, lt)"
          and ad: "dec_add tot lt = Inr tot1"
          and lp: "rows_loop fieldnames evs (items @ [it]) tot1 = Inr (items', tot')"
        by (auto split: sum.splits prod.splits)
      from process_row_inv [OF pr] obtain s l
        where "lt = Finite s l (- 2)" "s \<longrightarrow> l = 0" "ndigits l \<le> 28" by blast
      with add_blown [OF Cons.prems(1)] ad have "blown tot1" by blast
      then show ?thesis using lp by (rule Cons.IH)
    qed
  qed
qed

lemma loop_exact:
  "ndigits T \<le> 28
   \<Longrightarrow> rows_loop fieldnames evs items (Finite False T (- 2)) = Inr (items', tot')
   \<Longrightarrow> blown tot' \<or> (\<exists>news cs. items' = items @ news \<and> list_all2 item_inv news cs
          \<and> tot' = Finite False (T + sum_list cs) (- 2) \<and> ndigits (T + sum_list cs) \<le> 28)"
proof (induction evs arbitrary: items T)
  case Nil
  then have "items' = items @ [] \<and> list_all2 item_inv [] []
      \<and> tot' = Finite False (T + sum_list []) (- 2) \<and> ndigits (T + sum_list []) \<le> 28"
    by simp
  then show ?case by blast
next
  case (Cons ev evs)
  show ?case
  proof (cases ev)
    case (Inl err)
    with Cons.prems show ?thesis by simp
  next
    case (Inr row)
    show ?thesis
    proof (cases "row = []")
      case True
      with Inr Cons.prems Cons.IH [of T items] show ?thesis by simp
    next
      case False
      with Inr Cons.prems(2) obtain it lt tot1
        where pr: "process_row (make_row fieldnames row) = Inr (it, lt)"
          and ad: "dec_add (Finite False T (- 2)) lt = Inr tot1"
          and lp: "rows_loop fieldnames evs (items @ [it]) tot1 = Inr (items', tot')"
        by (auto split: sum.splits prod.splits)
      from process_row_inv [OF pr] obtain s l
        where lt: "lt = Finite s l (- 2)" and sg: "s \<longrightarrow> l = 0" and ndl: "ndigits l \<le> 28"
          and inv: "item_inv it l" by blast
      from add_exact [OF Cons.prems(1) ndl sg ad [unfolded lt]]
      show ?thesis
      proof
        assume ex: "tot1 = Finite False (T + l) (- 2) \<and> ndigits (T + l) \<le> 28"
        with Cons.IH [of "T + l" "items @ [it]"] lp
        have "blown tot' \<or> (\<exists>news cs. items' = (items @ [it]) @ news
            \<and> list_all2 item_inv news cs
            \<and> tot' = Finite False (T + l + sum_list cs) (- 2)
            \<and> ndigits (T + l + sum_list cs) \<le> 28)" by simp
        then show ?thesis
        proof
          assume "blown tot'"
          then show ?thesis by simp
        next
          assume "\<exists>news cs. items' = (items @ [it]) @ news \<and> list_all2 item_inv news cs
            \<and> tot' = Finite False (T + l + sum_list cs) (- 2)
            \<and> ndigits (T + l + sum_list cs) \<le> 28"
          then obtain news cs where n: "items' = (items @ [it]) @ news"
            "list_all2 item_inv news cs" "tot' = Finite False (T + l + sum_list cs) (- 2)"
            "ndigits (T + l + sum_list cs) \<le> 28" by blast
          then have "items' = items @ (it # news) \<and> list_all2 item_inv (it # news) (l # cs)
            \<and> tot' = Finite False (T + sum_list (l # cs)) (- 2)
            \<and> ndigits (T + sum_list (l # cs)) \<le> 28"
            using inv by (simp add: add.assoc)
          then show ?thesis by blast
        qed
      next
        assume "blown tot1"
        then have "blown tot'" using lp by (rule loop_blown)
        then show ?thesis by simp
      qed
    qed
  qed
qed

lemma read_csv_rows_exact:
  assumes "read_csv_rows sniff csv_file = Inr (items, tot)"
  shows "\<exists>cs. list_all2 item_inv items cs \<and> tot = Finite False (sum_list cs) (- 2)
     \<and> ndigits (sum_list cs) \<le> 28"
proof -
  from assms obtain fieldnames rest tot0
    where lp: "rows_loop fieldnames rest [] (Finite False 0 (- 2)) = Inr (items, tot0)"
      and qu: "quantize tot0 (Finite False (Suc 0) (- 2)) ROUND_HALF_UP = Inr tot"
    unfolding read_csv_rows_def
    by (auto simp: Let_def split: option.splits if_splits sum.splits list.splits prod.splits)
  have "ndigits 0 \<le> 28" by (simp add: ndigits_0)
  from loop_exact [OF this lp] show ?thesis
  proof
    assume "blown tot0"
    with quantize_blown [of tot0] qu show ?thesis by simp
  next
    assume "\<exists>news cs. items = [] @ news \<and> list_all2 item_inv news cs
          \<and> tot0 = Finite False (0 + sum_list cs) (- 2) \<and> ndigits (0 + sum_list cs) \<le> 28"
    then obtain cs where cs: "list_all2 item_inv items cs"
      "tot0 = Finite False (sum_list cs) (- 2)" "ndigits (sum_list cs) \<le> 28" by auto
    with qu quantize_exact [OF cs(3), of False False "Suc 0" ROUND_HALF_UP]
    have "tot = Finite False (sum_list cs) (- 2)" by simp
    with cs show ?thesis by blast
  qed
qed

lemma digit_cases: "d < 10 \<Longrightarrow> d \<in> {0, 1, 2, 3, 4, 5, 6, 7, 8, 9::nat}"
  by auto

lemma digit_char_val: "d < 10 \<Longrightarrow> digit_val (''0123456789'' ! d) = d"
  by (drule digit_cases) (auto simp: digit_val_def code_point_def)

lemma digit_char_decimal: "d < 10 \<Longrightarrow> isdecimal (''0123456789'' ! d)"
  by (drule digit_cases) (auto simp: isdecimal_def code_point_def)

lemma isdecimal_plain:
  "isdecimal c \<Longrightarrow> \<not> isspace c \<and> c \<noteq> CHR ''_'' \<and> c \<noteq> CHR ''-'' \<and> c \<noteq> CHR ''+''
     \<and> c \<noteq> CHR ''.''"
  by (auto simp: isdecimal_def isspace_def code_point_def Let_def)

lemma digits_val_snoc: "digits_val (xs @ [c]) = 10 * digits_val xs + digit_val c"
  by (simp add: digits_val_def)

lemma str_nat_decimal: "list_all isdecimal (str_nat n)"
proof (induction n rule: str_nat.induct)
  case (1 n)
  show ?case
  proof (cases "n < 10")
    case True
    then show ?thesis by (subst str_nat.simps) (simp add: digit_char_decimal)
  next
    case False
    with 1 show ?thesis by (subst str_nat.simps) (simp add: digit_char_decimal)
  qed
qed

lemma str_nat_nonempty: "str_nat n \<noteq> []"
  by (subst str_nat.simps) simp

lemma digits_val_str_nat: "digits_val (str_nat n) = n"
proof (induction n rule: str_nat.induct)
  case (1 n)
  show ?case
  proof (cases "n < 10")
    case True
    then show ?thesis
      using digits_val_snoc [of "[]" "''0123456789'' ! n"]
      by (subst str_nat.simps) (simp add: digit_char_val digits_val_def)
  next
    case False
    with 1 show ?thesis
      by (subst str_nat.simps) (simp add: digits_val_snoc digit_char_val)
  qed
qed


lemma parse_number_fixed:
  assumes "list_all isdecimal ip" "ip \<noteq> []" "isdecimal d1" "isdecimal d0"
  shows "parse_number (ip @ ''.'' @ [d1, d0]) = Some (digits_val (ip @ [d1, d0]), - 2)"
proof -
  have all: "\<forall>x \<in> set ip. isdecimal x" using assms(1) by (simp add: list_all_iff)
  have nd: "\<not> isdecimal (CHR ''.'')" by (simp add: isdecimal_def code_point_def)
  have tw: "takeWhile isdecimal (ip @ ''.'' @ [d1, d0]) = ip"
    using all nd by (simp add: takeWhile_append2)
  have dw: "dropWhile isdecimal (ip @ ''.'' @ [d1, d0]) = ''.'' @ [d1, d0]"
    using all nd by (simp add: dropWhile_append2)
  show ?thesis
    unfolding parse_number_def tw dw using assms by (simp add: Let_def)
qed

lemma format_2f_cents:
  "format_2f (Finite s c (- 2)) = (if s then ''-'' else []) @ str_nat (c div 100) @ ''.''
     @ [''0123456789'' ! (c div 10 mod 10), ''0123456789'' ! (c mod 10)]"
  by (simp add: format_2f_def rescale_def)

lemma cents_digits:
  "digits_val (str_nat (c div 100)
     @ [''0123456789'' ! (c div 10 mod 10), ''0123456789'' ! (c mod 10)]) = c"
proof -
  have "digits_val ((str_nat (c div 100) @ [''0123456789'' ! (c div 10 mod 10)])
      @ [''0123456789'' ! (c mod 10)]) = 10 * (10 * (c div 100) + c div 10 mod 10) + c mod 10"
    unfolding digits_val_snoc by (simp add: digits_val_str_nat digit_char_val)
  also have "\<dots> = c"
  proof -
    have "c div 100 = c div 10 div 10" by (simp add: div_mult2_eq)
    then have "10 * (c div 100) + c div 10 mod 10 = c div 10" by simp
    then show ?thesis by simp
  qed
  finally show ?thesis by simp
qed

lemma Decimal_of_str_format_2f:
  assumes "ndigits c \<le> 28"
  shows "Decimal_of_str (format_2f (Finite s c (- 2))) = Some (Finite s c (- 2))"
proof -
  define ip where "ip = str_nat (c div 100)"
  define d1 where "d1 = ''0123456789'' ! (c div 10 mod 10)"
  define d0 where "d0 = ''0123456789'' ! (c mod 10)"
  define body where "body = ip @ ''.'' @ [d1, d0]"
  have ip: "list_all isdecimal ip" "ip \<noteq> []"
    by (simp_all add: ip_def str_nat_decimal str_nat_nonempty)
  have d: "isdecimal d1" "isdecimal d0"
    by (simp_all add: d1_def d0_def digit_char_decimal)
  have fm: "format_2f (Finite s c (- 2)) = (if s then ''-'' else []) @ body"
    by (simp add: format_2f_cents body_def ip_def d1_def d0_def)
  have hd_ip: "isdecimal (hd ip)" using ip by (cases ip) simp_all
  have hd_body: "hd body = hd ip" using ip by (simp add: body_def)
  have body_ne: "body \<noteq> []" by (simp add: body_def)
  have last_body: "last body = d0" by (simp add: body_def)
  have plain: "\<forall>x \<in> set body. x \<noteq> CHR ''_''"
    using ip d isdecimal_plain by (auto simp: body_def list_all_iff)
  have st: "strip ((if s then ''-'' else []) @ body) = (if s then ''-'' else []) @ body"
  proof (rule strip_id)
    show "(if s then ''-'' else []) @ body \<noteq> []" using body_ne by simp
    show "\<not> isspace (hd ((if s then ''-'' else []) @ body))"
      using hd_body hd_ip isdecimal_plain body_ne
      by (auto simp: isspace_def code_point_def)
    show "\<not> isspace (last ((if s then ''-'' else []) @ body))"
      using last_body d isdecimal_plain body_ne by auto
  qed
  have fl: "filter (\<lambda>c. c \<noteq> CHR ''_'') ((if s then ''-'' else []) @ body)
      = (if s then ''-'' else []) @ body"
    using plain by (auto simp: filter_id_conv)
  have hb: "hd body \<noteq> CHR ''-''" "hd body \<noteq> CHR ''+''"
    using hd_body hd_ip isdecimal_plain by auto
  have pn: "parse_number body = Some (c, - 2)"
    unfolding body_def using parse_number_fixed [OF ip d] cents_digits [of c]
    by (simp add: ip_def d1_def d0_def)
  have adj: "adjusted c (- 2) \<le> 999999999999999999"
    using assms by (simp add: adjusted_def)
  show ?thesis
    unfolding fm Decimal_of_str_def st fl using hb pn adj body_ne
    by (cases s) (simp_all add: Let_def)
qed

subsection \<open>Every outcome of the field parsers\<close>

text \<open>
  Beside its four messages and its rounded value the price parser has one more outcome,
  \<open>decimal.InvalidOperation\<close>; beside its two messages and its value the quantity parser
  has one more, \<open>ValueError\<close>.
\<close>

lemma quantize_outcomes:
  "quantize (Finite s c e) (Finite t u (- 2)) r = Inl InvalidOperation
   \<or> (\<exists>c'. quantize (Finite s c e) (Finite t u (- 2)) r = Inr (Finite s c' (- 2)))"
proof (cases "c = 0")
  case True
  then show ?thesis
    using dec_fix_small [of 0 "- 2" s] by (simp add: quantize_Finite ndigits_0)
next
  case False
  obtain c' where r: "rescale s c e (- 2) r = Finite s c' (- 2)"
    using rescale_Finite [of s c e "- 2" r] by blast
  show ?thesis
  proof (cases "ndigits c' \<le> 28")
    case True
    then show ?thesis
      using False r dec_fix_small [OF True, of "- 2" s]
      by (simp add: quantize_Finite prec_def)
  next
    case F: False
    then show ?thesis
      using False r by (simp add: quantize_Finite prec_def)
  qed
qed

lemma parse_price_outcomes:
  "parse_price raw = Inl (CliError PriceMissing)
   \<or> parse_price raw = Inl (CliError PriceCommaSeparator)
   \<or> parse_price raw = Inl (CliError (PriceInvalid (strip (or_empty raw))))
   \<or> parse_price raw = Inl (CliError (PriceNegative (strip (or_empty raw))))
   \<or> parse_price raw = Inl InvalidOperation
   \<or> (\<exists>s c. parse_price raw = Inr (Finite s c (- 2)))"
proof -
  define t where "t = strip (or_empty raw)"
  show ?thesis
  proof (cases "Decimal_of_str t")
    case None
    then show ?thesis by (simp add: parse_price_def Let_def t_def [symmetric])
  next
    case (Some v)
    show ?thesis
    proof (cases v)
      case (Finite s c e)
      show ?thesis
      proof (cases "s \<and> c \<noteq> 0")
        case True
        with Some Finite show ?thesis
          by (simp add: parse_price_def Let_def t_def [symmetric] dec_lt_zero_def)
      next
        case False
        with Some Finite have "parse_price raw = Inl (CliError PriceMissing)
            \<or> parse_price raw = Inl (CliError PriceCommaSeparator)
            \<or> parse_price raw = quantize (Finite s c e) (Finite False 1 (- 2)) ROUND_HALF_UP"
          by (auto simp: parse_price_def Let_def t_def [symmetric] dec_lt_zero_def
              split: bool.splits)
        with quantize_outcomes [of s c e False 1 ROUND_HALF_UP] show ?thesis
          by auto
      qed
    next
      case (Infinity s)
      with Some show ?thesis
        by (cases s)
           (simp_all add: parse_price_def Let_def t_def [symmetric] dec_lt_zero_def
              quantize_def check_nans_def)
    next
      case (NaN s sig p)
      with Some show ?thesis
        by (simp add: parse_price_def Let_def t_def [symmetric] dec_lt_zero_def)
    qed
  qed
qed

lemma parse_qty_outcomes:
  "parse_qty raw = Inl (CliError QtyMissing)
   \<or> parse_qty raw = Inl (CliError (QtyNotInteger (strip (or_empty raw))))
   \<or> parse_qty raw = Inl ValueError
   \<or> (\<exists>q. 0 \<le> q \<and> parse_qty raw = Inr q)"
proof (cases "parse_qty raw")
  case (Inl e)
  then show ?thesis
    by (auto simp: parse_qty_def py_int_def Let_def split: if_splits)
next
  case (Inr q)
  with parse_qty_nonneg [OF Inr] show ?thesis by simp
qed

section \<open>Line totals and the total\<close>

lemma dec_value_cents:
  "s \<longrightarrow> c = 0 \<Longrightarrow> dec_value (Finite s c (- 2)) = Some (of_nat c / 100)"
  by (auto simp: dec_value_def tenpow_def)

lemma text_value_format:
  "ndigits c \<le> 28 \<Longrightarrow> s \<longrightarrow> c = 0
     \<Longrightarrow> text_value (format_2f (Finite s c (- 2))) = Some (of_nat c / 100)"
  by (simp add: text_value_def Decimal_of_str_format_2f dec_value_cents)

lemma round_half_up_cents: "round_half_up 2 (of_nat k / 100) = of_nat k / 100"
proof -
  have "\<lfloor>(of_nat k :: rat) + 1 / 2\<rfloor> = int k"
    by (simp add: floor_unique)
  then have "\<lfloor>\<bar>of_nat k / 100 :: rat\<bar> * 10 ^ 2 + 1 / 2\<rfloor> = int k"
    by simp
  then show ?thesis
    by (cases "k = 0") (simp_all add: round_half_up_def)
qed

lemma item_inv_values:
  assumes "item_inv it l"
  shows "\<exists>p. text_value (price it) = Some p \<and> text_value (line_total it) = Some (of_nat l / 100)
     \<and> of_nat l / 100 = round_half_up 2 (p * of_int (qty it))"
proof -
  from assms obtain s c where pr: "price it = format_2f (Finite s c (- 2))"
    and lt: "line_total it = format_2f (Finite s l (- 2))" and l: "l = c * nat (qty it)"
    and q: "0 \<le> qty it" and nd: "ndigits c \<le> 28" and ndl: "ndigits l \<le> 28"
    and sg: "s \<longrightarrow> c = 0"
    unfolding item_inv_def by blast
  from sg l have sl: "s \<longrightarrow> l = 0" by simp
  have p: "text_value (price it) = Some (of_nat c / 100)"
    unfolding pr using nd sg by (rule text_value_format)
  have t: "text_value (line_total it) = Some (of_nat l / 100)"
    unfolding lt using ndl sl by (rule text_value_format)
  have "(of_nat c / 100 :: rat) * of_int (qty it) = of_nat l / 100"
    using q l by simp
  then have "of_nat l / 100 = round_half_up 2 (of_nat c / 100 * of_int (qty it))"
    by (simp add: round_half_up_cents)
  with p t show ?thesis by blast
qed

text \<open>
  C1. For every load that succeeds, the line total of each item is the price times the
  quantity rounded half-up to two fractional digits, and the total is the sum of the line
  totals rounded half-up to two fractional digits, rounded once after the loop. The price
  and the line total of an item are read from their formatted texts. (Under the context
  precision of 28 digits a product or a sum that does not fit exactly makes \<open>quantize\<close>
  raise, so no successful load holds an inexact intermediate value.)
\<close>

theorem line_totals_and_total_rounded:
  assumes "read_csv_rows sniff csv_file = Inr (items, tot)"
  shows "list_all (\<lambda>it. \<exists>p l. text_value (price it) = Some p
            \<and> text_value (line_total it) = Some l
            \<and> l = round_half_up 2 (p * of_int (qty it))) items
     \<and> (\<exists>ls. map (\<lambda>it. text_value (line_total it)) items = map Some ls
            \<and> dec_value tot = Some (round_half_up 2 (sum_list ls)))"
proof -
  from read_csv_rows_exact [OF assms] obtain cs
    where inv: "list_all2 item_inv items cs" and tot: "tot = Finite False (sum_list cs) (- 2)"
    by blast
  have each: "\<forall>it \<in> set items. \<exists>p l. text_value (price it) = Some p
            \<and> text_value (line_total it) = Some l
            \<and> l = round_half_up 2 (p * of_int (qty it))"
  proof
    fix it assume "it \<in> set items"
    with inv obtain l where "item_inv it l"
      by (auto simp: list_all2_conv_all_nth in_set_conv_nth)
    from item_inv_values [OF this] show "\<exists>p l. text_value (price it) = Some p
            \<and> text_value (line_total it) = Some l
            \<and> l = round_half_up 2 (p * of_int (qty it))" by blast
  qed
  have texts: "map (\<lambda>it. text_value (line_total it)) items
      = map Some (map (\<lambda>l. of_nat l / 100) cs)"
    using inv
  proof (induction items cs rule: list_all2_induct)
    case Nil
    then show ?case by simp
  next
    case (Cons it items l cs)
    then show ?case using item_inv_values [of it l] by auto
  qed
  have "sum_list (map (\<lambda>l. (of_nat l :: rat) / 100) cs) = of_nat (sum_list cs) / 100"
    by (induction cs) (simp_all add: add_divide_distrib)
  then have "round_half_up 2 (sum_list (map (\<lambda>l. (of_nat l :: rat) / 100) cs))
      = of_nat (sum_list cs) / 100"
    by (simp only: round_half_up_cents)
  then have "dec_value tot = Some (round_half_up 2 (sum_list (map (\<lambda>l. of_nat l / 100) cs)))"
    unfolding tot using dec_value_cents [of False "sum_list cs"] by simp
  with texts have "\<exists>ls. map (\<lambda>it. text_value (line_total it)) items = map Some ls
            \<and> dec_value tot = Some (round_half_up 2 (sum_list ls))"
    by blast
  with each show ?thesis by (simp add: list_all_iff)
qed

theorem line_totals_and_total_rounded_witness:
  "read_csv_rows (\<lambda>sample delimiters. Some (CHR '',''))
      (Some ''product,price,qty\<newline>Apple,1.50,2\<newline>Bread,0.99,3'')
     = Inr ([\<lparr>product = ''Apple'', price = ''1.50'', qty = 2, line_total = ''3.00''\<rparr>,
             \<lparr>product = ''Bread'', price = ''0.99'', qty = 3, line_total = ''2.97''\<rparr>],
            Finite False 597 (- 2))
   \<and> list_all (\<lambda>it. \<exists>p l. text_value (price it) = Some p
            \<and> text_value (line_total it) = Some l
            \<and> l = round_half_up 2 (p * of_int (qty it)))
         [\<lparr>product = ''Apple'', price = ''1.50'', qty = 2, line_total = ''3.00''\<rparr>,
          \<lparr>product = ''Bread'', price = ''0.99'', qty = 3, line_total = ''2.97''\<rparr>]
   \<and> (\<exists>ls. map (\<lambda>it. text_value (line_total it))
            [\<lparr>product = ''Apple'', price = ''1.50'', qty = 2, line_total = ''3.00''\<rparr>,
             \<lparr>product = ''Bread'', price = ''0.99'', qty = 3, line_total = ''2.97''\<rparr>]
          = map Some ls
          \<and> dec_value (Finite False 597 (- 2)) = Some (round_half_up 2 (sum_list ls)))"
proof -
  have l: "read_csv_rows (\<lambda>sample delimiters. Some (CHR '',''))
      (Some ''product,price,qty\<newline>Apple,1.50,2\<newline>Bread,0.99,3'')
     = Inr ([\<lparr>product = ''Apple'', price = ''1.50'', qty = 2, line_total = ''3.00''\<rparr>,
             \<lparr>product = ''Bread'', price = ''0.99'', qty = 3, line_total = ''2.97''\<rparr>],
            Finite False 597 (- 2))"
    by (simp add: char_defs dec_defs parser_defs csv_defs Let_def)
  show ?thesis
    using l line_totals_and_total_rounded [OF l] by blast
qed

end
